theory Spec2Isabelle
  imports
    Main
    "HOL-Library.Word"
    "HOL-Library.Multiset"
    "HOL-Library.Char_ord"
    "HOL-Library.List_Lexorder"
begin

section \<open>Time values\<close>

text \<open>
  A Go \<^verbatim>\<open>time.Time\<close> is an instant together with a location. The instant is kept as
  nanoseconds since the Unix epoch. The location is kept as what Go looks up in it: the
  offset east of UTC, in seconds, that is in force at a given Unix second (the constant 0
  for UTC, the constant parsed offset for a time read from an RFC3339 string with a
  numeric zone, a varying offset for a zone with daylight saving). \<^verbatim>\<open>Before\<close>,
  \<^verbatim>\<open>After\<close> and \<^verbatim>\<open>Sub\<close> compare instants only; \<^verbatim>\<open>Year\<close> and \<^verbatim>\<open>YearDay\<close>
  read the calendar in the time's own location. Instants are unbounded integers: the range
  of Go's representation is far outside what an RFC3339 string (years 0000 to 9999) can
  denote.
\<close>

record Time =
  unixNano :: int
  location :: "int \<Rightarrow> int"

type_synonym Duration = "64 word"

definition Second :: int where
  "Second = 1000000000"

definition Hour :: int where
  "Hour = 3600 * Second"

text \<open>The offset of a time: that of its location at its own instant.\<close>

definition zoneOffset :: "Time \<Rightarrow> int" where
  "zoneOffset t = location t (unixNano t div Second)"

definition Before :: "Time \<Rightarrow> Time \<Rightarrow> bool" where
  "Before t u = (unixNano t < unixNano u)"

definition After :: "Time \<Rightarrow> Time \<Rightarrow> bool" where
  "After t u = (unixNano t > unixNano u)"

text \<open>
  \<^verbatim>\<open>t.Add(d)\<close> moves the instant and keeps the location (whose offset at the new
  instant may be another one).
\<close>

definition Add :: "Time \<Rightarrow> int \<Rightarrow> Time" where
  "Add t d = t\<lparr>unixNano := unixNano t + d\<rparr>"

text \<open>
  \<^verbatim>\<open>t.Truncate(d)\<close> rounds the instant down to a multiple of \<open>d\<close> counted from Go's
  zero time (January 1 of year 1, 00:00 UTC, which is 62135596800 seconds before the Unix
  epoch), and returns \<open>t\<close> unchanged when \<open>d \<le> 0\<close>. The location is kept.
\<close>

definition zeroTimeOffset :: int where
  "zeroTimeOffset = 62135596800 * Second"

definition Truncate :: "Time \<Rightarrow> int \<Rightarrow> Time" where
  "Truncate t d =
     (if d \<le> 0 then t
      else t\<lparr>unixNano := unixNano t - ((unixNano t + zeroTimeOffset) mod d)\<rparr>)"

text \<open>
  \<^verbatim>\<open>t.Sub(u)\<close> is a 64-bit count of nanoseconds; Go saturates it at the smallest and
  largest Duration when the difference does not fit.
\<close>

definition minDuration :: int where
  "minDuration = - (2 ^ 63)"

definition maxDuration :: int where
  "maxDuration = 2 ^ 63 - 1"

definition Sub :: "Time \<Rightarrow> Time \<Rightarrow> Duration" where
  "Sub t u =
     (let d = unixNano t - unixNano u
      in if d < minDuration then word_of_int minDuration
         else if maxDuration < d then word_of_int maxDuration
         else word_of_int d)"

text \<open>
  The calendar day of a time in its own location, as a count of days since 1970-01-01,
  and the proleptic Gregorian year and day of the year (1 to 366) of such a day count.
\<close>

definition civilDay :: "Time \<Rightarrow> int" where
  "civilDay t = (unixNano t div Second + zoneOffset t) div 86400"

definition dayOfEra :: "int \<Rightarrow> int" where
  "dayOfEra days = (days + 719468) mod 146097"

definition yearOfEra :: "int \<Rightarrow> int" where
  "yearOfEra days =
     (let doe = dayOfEra days
      in (doe - doe div 1460 + doe div 36524 - doe div 146096) div 365)"

text \<open>Day of the year counted from March 1 (0 to 365).\<close>

definition marchDay :: "int \<Rightarrow> int" where
  "marchDay days =
     (let yoe = yearOfEra days
      in dayOfEra days - (365 * yoe + yoe div 4 - yoe div 100))"

definition yearOfDay :: "int \<Rightarrow> int" where
  "yearOfDay days =
     (let y = yearOfEra days + ((days + 719468) div 146097) * 400
      in if 306 \<le> marchDay days then y + 1 else y)"

definition isLeap :: "int \<Rightarrow> bool" where
  "isLeap y = (y mod 4 = 0 \<and> (y mod 100 \<noteq> 0 \<or> y mod 400 = 0))"

definition yearDayOfDay :: "int \<Rightarrow> int" where
  "yearDayOfDay days =
     (let doy = marchDay days
      in if 306 \<le> doy then doy - 305
         else doy + 60 + (if isLeap (yearOfDay days) then 1 else 0))"

definition Year :: "Time \<Rightarrow> int" where
  "Year t = yearOfDay (civilDay t)"

definition YearDay :: "Time \<Rightarrow> int" where
  "YearDay t = yearDayOfDay (civilDay t)"

section \<open>Data model\<close>

text \<open>
  The three structs of the program. The second variant of the source differs from the
  first only in fields that no function below reads: its \<^verbatim>\<open>Session\<close> and
  \<^verbatim>\<open>SessionTime\<close> carry an \<^verbatim>\<open>Email\<close> that is always the empty string, and its
  \<^verbatim>\<open>SessionTime\<close> has no \<^verbatim>\<open>Date\<close>.
\<close>

record VoiceChannelUser =
  ID :: "64 word"
  UserID :: string
  ClanID :: "64 word"
  ChannelID :: "64 word"
  DisplayName :: string
  CreateTime :: string
  UpdateTime :: string
  Active :: "16 word"

record Session =
  Name :: string
  GoogleID :: string
  StartTime :: Time
  EndTime :: Time

text \<open>
  The aggregated record. Its name and identity fields carry the prefix \<open>st\<close> because a
  record field is a constant of the theory and \<open>Name\<close>, \<open>GoogleID\<close> are the fields of
  \<open>Session\<close>.
\<close>

record SessionTime =
  stName :: string
  stGoogleID :: string
  TotalTime :: Duration
  Date :: Time

section \<open>Session reconstruction\<close>

text \<open>
  \<^verbatim>\<open>time.Parse(time.RFC3339, s)\<close> is a function of the standard library; it is a
  parameter \<open>parse\<close> of the model, with \<open>None\<close> for a returned error.
\<close>

type_synonym parser = "string \<Rightarrow> Time option"

datatype error = ParseError

definition minTime :: "Time \<Rightarrow> Time \<Rightarrow> Time" where
  "minTime a b = (if Before a b then a else b)"

definition maxTime :: "Time \<Rightarrow> Time \<Rightarrow> Time" where
  "maxTime a b = (if After a b then a else b)"

text \<open>
  One pass of the inner loop of \<^verbatim>\<open>processActivities\<close>. The state is the pointer
  \<^verbatim>\<open>currentSession\<close> (\<open>None\<close> for nil) and the slice \<^verbatim>\<open>sessions\<close>; every
  \<^verbatim>\<open>return nil\<close> after a failed parse is the result \<open>Inl ParseError\<close>.
\<close>

fun activityStep ::
  "parser \<Rightarrow> Session option \<times> Session list \<Rightarrow> VoiceChannelUser
     \<Rightarrow> error + (Session option \<times> Session list)" where
  "activityStep parse (None, sessions) activity =
     (if Active activity = 2 then
        (case parse (CreateTime activity) of
           None \<Rightarrow> Inl ParseError
         | Some startTime \<Rightarrow>
             (case parse (UpdateTime activity) of
                None \<Rightarrow> Inl ParseError
              | Some endTime \<Rightarrow>
                  Inr (Some \<lparr>Name = DisplayName activity, GoogleID = UserID activity,
                             StartTime = startTime, EndTime = endTime\<rparr>, sessions)))
      else Inr (None, sessions))"
| "activityStep parse (Some currentSession, sessions) activity =
     (if Active activity = 2 then
        (case parse (CreateTime activity) of
           None \<Rightarrow> Inl ParseError
         | Some startTime \<Rightarrow>
             (case parse (UpdateTime activity) of
                None \<Rightarrow> Inl ParseError
              | Some endTime \<Rightarrow>
                  Inr (Some (currentSession
                         \<lparr>StartTime := minTime (StartTime currentSession) startTime,
                          EndTime := maxTime (EndTime currentSession) endTime\<rparr>), sessions)))
      else if Active activity = 0 then
        (case parse (UpdateTime activity) of
           None \<Rightarrow> Inl ParseError
         | Some endTime \<Rightarrow>
             Inr (None, sessions @
               [currentSession\<lparr>EndTime := maxTime (EndTime currentSession) endTime\<rparr>]))
      else Inr (Some currentSession, sessions))"

text \<open>The inner loop over the activities of one display name.\<close>

fun userLoop ::
  "parser \<Rightarrow> Session option \<times> Session list \<Rightarrow> VoiceChannelUser list
     \<Rightarrow> error + (Session option \<times> Session list)" where
  "userLoop parse st [] = Inr st"
| "userLoop parse st (activity # rest) =
     (case activityStep parse st activity of
        Inl e \<Rightarrow> Inl e
      | Inr st' \<Rightarrow> userLoop parse st' rest)"

text \<open>After the inner loop a session that is still open is appended.\<close>

fun closeTrailing :: "Session option \<times> Session list \<Rightarrow> Session list" where
  "closeTrailing (None, sessions) = sessions"
| "closeTrailing (Some currentSession, sessions) = sessions @ [currentSession]"

text \<open>
  The first loop of \<^verbatim>\<open>processActivities\<close>: the map from display name to the
  activities carrying it, in their order in the input.
\<close>

fun groupByName ::
  "(string \<rightharpoonup> VoiceChannelUser list) \<Rightarrow> VoiceChannelUser list
     \<Rightarrow> (string \<rightharpoonup> VoiceChannelUser list)" where
  "groupByName userSessions [] = userSessions"
| "groupByName userSessions (activity # rest) =
     groupByName
       (userSessions(DisplayName activity \<mapsto>
          (case userSessions (DisplayName activity) of None \<Rightarrow> [] | Some l \<Rightarrow> l) @ [activity]))
       rest"

text \<open>
  The second loop ranges over the map. Go leaves the order of a range over a map
  unspecified, so the order is a parameter: \<open>keys\<close> lists the display names in the order the
  range visits them. \<open>rangeOrder\<close> says that \<open>keys\<close> is such an order for the given input:
  every key of the map, once.
\<close>

definition rangeOrder :: "string list \<Rightarrow> VoiceChannelUser list \<Rightarrow> bool" where
  "rangeOrder keys activities =
     (distinct keys \<and> set keys = set (map DisplayName activities))"

fun usersLoop ::
  "parser \<Rightarrow> (string \<rightharpoonup> VoiceChannelUser list) \<Rightarrow> Session list \<Rightarrow> string list
     \<Rightarrow> error + Session list" where
  "usersLoop parse userSessions sessions [] = Inr sessions"
| "usersLoop parse userSessions sessions (k # keys) =
     (case userLoop parse (None, sessions)
             (case userSessions k of None \<Rightarrow> [] | Some l \<Rightarrow> l) of
        Inl e \<Rightarrow> Inl e
      | Inr st \<Rightarrow> usersLoop parse userSessions (closeTrailing st) keys)"

definition processActivitiesE ::
  "parser \<Rightarrow> string list \<Rightarrow> VoiceChannelUser list \<Rightarrow> error + Session list" where
  "processActivitiesE parse keys activities =
     usersLoop parse (groupByName Map.empty activities) [] keys"

text \<open>
  What the caller receives: the slice of sessions, or nil after a failed parse. A nil
  slice and an empty slice are the same list here, as they are for every use the program
  makes of the result.
\<close>

definition processActivities ::
  "parser \<Rightarrow> string list \<Rightarrow> VoiceChannelUser list \<Rightarrow> Session list" where
  "processActivities parse keys activities =
     (case processActivitiesE parse keys activities of
        Inl e \<Rightarrow> []
      | Inr sessions \<Rightarrow> sessions)"

section \<open>Removal of contained sessions\<close>

text \<open>
  The comparison handed to \<^verbatim>\<open>sort.Slice\<close>. Go compares strings byte by byte, a proper
  prefix first: the lexicographic order on character lists.
\<close>

definition sessionLess :: "Session \<Rightarrow> Session \<Rightarrow> bool" where
  "sessionLess a b =
     (if Name a = Name b then Before (StartTime a) (StartTime b) else Name a < Name b)"

text \<open>
  \<^verbatim>\<open>sort.Slice\<close> is not stable: it leaves some permutation of the slice in which no
  element is less than an earlier one. \<open>sortSliceResult sessions out\<close> says that
  \<open>out\<close> is such an outcome for \<open>sessions\<close>; \<open>sortSessions\<close> computes the one in which
  equal elements keep their input order, by insertion (what the insertion sort that
  current Go runs on a slice of at most 12 elements leaves).
\<close>

definition sortSliceResult :: "Session list \<Rightarrow> Session list \<Rightarrow> bool" where
  "sortSliceResult sessions out =
     (mset out = mset sessions \<and> sorted_wrt (\<lambda>a b. \<not> sessionLess b a) out)"

fun insertSession :: "Session \<Rightarrow> Session list \<Rightarrow> Session list" where
  "insertSession x [] = [x]"
| "insertSession x (y # ys) =
     (if sessionLess y x then y # insertSession x ys else x # y # ys)"

definition sortSessions :: "Session list \<Rightarrow> Session list" where
  "sortSessions sessions = foldr insertSession sessions []"

text \<open>
  The inner loop over the indices \<open>j < i\<close>: whether one of the sessions before the
  current one has the same name, starts before it and ends after it.
\<close>

fun isSubSession :: "Session list \<Rightarrow> Session \<Rightarrow> bool" where
  "isSubSession [] current = False"
| "isSubSession (t # ts) current =
     (if Name t = Name current \<and> Before (StartTime t) (StartTime current)
         \<and> After (EndTime t) (EndTime current)
      then True
      else isSubSession ts current)"

text \<open>The outer loop over the indices \<open>i\<close> of the sorted slice.\<close>

function filterFrom :: "Session list \<Rightarrow> nat \<Rightarrow> Session list \<Rightarrow> Session list" where
  "filterFrom sessions i filtered =
     (if i < length sessions then
        filterFrom sessions (i + 1)
          (if \<not> isSubSession (take i sessions) (sessions ! i)
           then filtered @ [sessions ! i] else filtered)
      else filtered)"
  by pat_completeness auto
termination
  by (relation "measure (\<lambda>(sessions, i, filtered). length sessions - i)") auto

definition FilterSessions :: "Session list \<Rightarrow> Session list" where
  "FilterSessions sessions = filterFrom (sortSessions sessions) 0 []"

section \<open>Aggregation over the daily window\<close>

text \<open>
  The body of the loop of \<^verbatim>\<open>CalculateTotalTimeForDate\<close>, with the map
  \<^verbatim>\<open>totalTimeMap\<close> passed through. \<^verbatim>\<open>TotalTime += duration\<close> is an addition of
  64-bit integers and wraps around.
\<close>

definition sessionStep ::
  "Time \<Rightarrow> Time \<Rightarrow> Time \<Rightarrow> Time \<Rightarrow> (string \<rightharpoonup> SessionTime) \<Rightarrow> Session
     \<Rightarrow> (string \<rightharpoonup> SessionTime)" where
  "sessionStep date startOfDay start3h end5h totalTimeMap s =
     (if Year (StartTime s) = Year date \<and> YearDay (StartTime s) = YearDay date then
        (let effectiveStart = (if Before (StartTime s) start3h then start3h else StartTime s);
             effectiveEnd = (if After (EndTime s) end5h then end5h else EndTime s)
         in if Before effectiveStart effectiveEnd then
              (let duration = Sub effectiveEnd effectiveStart;
                   userKey = Name s @ GoogleID s
               in case totalTimeMap userKey of
                    Some sessionTime \<Rightarrow>
                      totalTimeMap(userKey \<mapsto>
                        sessionTime\<lparr>TotalTime := TotalTime sessionTime + duration\<rparr>)
                  | None \<Rightarrow>
                      totalTimeMap(userKey \<mapsto>
                        \<lparr>stName = Name s, stGoogleID = GoogleID s,
                         TotalTime = duration, Date = startOfDay\<rparr>))
            else totalTimeMap)
      else totalTimeMap)"

fun sessionsLoop ::
  "Time \<Rightarrow> Time \<Rightarrow> Time \<Rightarrow> Time \<Rightarrow> (string \<rightharpoonup> SessionTime) \<Rightarrow> Session list
     \<Rightarrow> (string \<rightharpoonup> SessionTime)" where
  "sessionsLoop date startOfDay start3h end5h totalTimeMap [] = totalTimeMap"
| "sessionsLoop date startOfDay start3h end5h totalTimeMap (s # rest) =
     sessionsLoop date startOfDay start3h end5h
       (sessionStep date startOfDay start3h end5h totalTimeMap s) rest"

definition CalculateTotalTimeForDate ::
  "Session list \<Rightarrow> Time \<Rightarrow> (string \<rightharpoonup> SessionTime)" where
  "CalculateTotalTimeForDate sessions date =
     (let startOfDay = Truncate date (24 * Hour);
          start3h = Add startOfDay (3 * Hour);
          end5h = Add startOfDay (5 * Hour)
      in sessionsLoop date startOfDay start3h end5h Map.empty sessions)"

section \<open>Notions used in the statements about the reconstruction\<close>

text \<open>The activities of one display name, in input order: the value the map holds for it.\<close>

definition activitiesOf :: "string \<Rightarrow> VoiceChannelUser list \<Rightarrow> VoiceChannelUser list" where
  "activitiesOf k activities = filter (\<lambda>a. DisplayName a = k) activities"

fun addPrefix ::
  "Session list \<Rightarrow> error + (Session option \<times> Session list)
     \<Rightarrow> error + (Session option \<times> Session list)" where
  "addPrefix acc (Inl e) = Inl e"
| "addPrefix acc (Inr (c, out)) = Inr (c, acc @ out)"

text \<open>
  An activity whose two timestamps parse has its creation time not after its update time.
\<close>

definition createdBeforeUpdated :: "parser \<Rightarrow> VoiceChannelUser \<Rightarrow> bool" where
  "createdBeforeUpdated parse a =
     (case parse (CreateTime a) of
        None \<Rightarrow> True
      | Some c \<Rightarrow> (case parse (UpdateTime a) of None \<Rightarrow> True | Some u \<Rightarrow> \<not> After c u))"

definition ordered :: "Session \<Rightarrow> bool" where
  "ordered s = (\<not> After (StartTime s) (EndTime s))"

fun stateOrdered :: "Session option \<times> Session list \<Rightarrow> bool" where
  "stateOrdered (cur, acc) = ((\<forall>s \<in> set acc. ordered s) \<and> (\<forall>c. cur = Some c \<longrightarrow> ordered c))"

text \<open>
  Whether a session is open after the rows \<open>pre\<close> of one partition: the last row of
  \<open>pre\<close> with state 2 (Active) or 0 (Inactive) has state 2.
\<close>

definition sessionOpenAfter :: "VoiceChannelUser list \<Rightarrow> bool" where
  "sessionOpenAfter pre =
     (let l = filter (\<lambda>a. Active a = 2 \<or> Active a = 0) pre
      in l \<noteq> [] \<and> Active (last l) = 2)"

text \<open>
  A row \<open>e\<close> arriving after the rows \<open>pre\<close> of its partition has a malformed timestamp
  among those the inner loop parses on it: the creation or update time when \<open>e\<close> is
  Active (state 2), the update time when \<open>e\<close> is Inactive (state 0) and a session is open.
\<close>

definition parsedMalformed :: "parser \<Rightarrow> VoiceChannelUser list \<Rightarrow> VoiceChannelUser \<Rightarrow> bool" where
  "parsedMalformed parse pre e =
     ((Active e = 2 \<and> (parse (CreateTime e) = None \<or> parse (UpdateTime e) = None))
      \<or> (Active e = 0 \<and> sessionOpenAfter pre \<and> parse (UpdateTime e) = None))"

text \<open>
  The instants an activity row denotes: its parsed creation and update time in
  nanoseconds (0 stands in for a string that does not parse).
\<close>

definition createdNano :: "parser \<Rightarrow> VoiceChannelUser \<Rightarrow> int" where
  "createdNano parse a = (case parse (CreateTime a) of None \<Rightarrow> 0 | Some c \<Rightarrow> unixNano c)"

definition updatedNano :: "parser \<Rightarrow> VoiceChannelUser \<Rightarrow> int" where
  "updatedNano parse a = (case parse (UpdateTime a) of None \<Rightarrow> 0 | Some u \<Rightarrow> unixNano u)"

text \<open>An Active row (state 2) whose two timestamps parse.\<close>

definition activeParsed :: "parser \<Rightarrow> VoiceChannelUser \<Rightarrow> bool" where
  "activeParsed parse a =
     (Active a = 2 \<and> parse (CreateTime a) \<noteq> None \<and> parse (UpdateTime a) \<noteq> None)"

text \<open>
  The sessions one partition contributes when its rows are processed on their own:
  the inner loop from a nil \<^verbatim>\<open>currentSession\<close>, then the trailing session.
\<close>

definition partitionSessions :: "parser \<Rightarrow> VoiceChannelUser list \<Rightarrow> error + Session list" where
  "partitionSessions parse evs =
     (case userLoop parse (None, []) evs of
        Inl e \<Rightarrow> Inl e
      | Inr st \<Rightarrow> Inr (closeTrailing st))"

text \<open>Every session held in the loop state carries the name \<open>n\<close>.\<close>

fun stateNamed :: "string \<Rightarrow> Session option \<times> Session list \<Rightarrow> bool" where
  "stateNamed n (cur, acc) = ((\<forall>s \<in> set acc. Name s = n) \<and> (\<forall>c. cur = Some c \<longrightarrow> Name c = n))"

text \<open>
  A row that the inner loop passes over when it arrives after the rows \<open>pre\<close> of its
  partition: an Inactive row (state 0) arriving while no session is open, or a row whose
  state is neither 2 nor 0.
\<close>

definition ignoredRow :: "VoiceChannelUser list \<Rightarrow> VoiceChannelUser \<Rightarrow> bool" where
  "ignoredRow pre e =
     ((Active e = 0 \<and> \<not> sessionOpenAfter pre) \<or> (Active e \<noteq> 2 \<and> Active e \<noteq> 0))"

text \<open>The keys a range over the map of the given input can visit, in the order of \<open>keys\<close>.\<close>

definition remainingKeys :: "string list \<Rightarrow> VoiceChannelUser list \<Rightarrow> string list" where
  "remainingKeys keys activities =
     filter (\<lambda>k. k \<in> set (map DisplayName activities)) keys"

section \<open>Notions used in the statements about the filter\<close>

text \<open>
  A session \<open>s\<close> is strictly contained in a session of the list: some \<open>t\<close> with the name
  of \<open>s\<close> starts before \<open>s\<close> starts and ends after \<open>s\<close> ends.
\<close>

definition strictlyContained :: "Session list \<Rightarrow> Session \<Rightarrow> bool" where
  "strictlyContained sessions s =
     (\<exists>t \<in> set sessions. Name t = Name s \<and> Before (StartTime t) (StartTime s)
        \<and> After (EndTime t) (EndTime s))"

section \<open>Notions used in the statements about the aggregation\<close>

text \<open>The key under which a session is accumulated.\<close>

definition userKey :: "Session \<Rightarrow> string" where
  "userKey s = Name s @ GoogleID s"

text \<open>
  The session starts on the calendar day of the target date: year and day of the year
  agree, each read in the location of its own time value.
\<close>

definition onTargetDay :: "Time \<Rightarrow> Session \<Rightarrow> bool" where
  "onTargetDay date s =
     (Year (StartTime s) = Year date \<and> YearDay (StartTime s) = YearDay date)"

text \<open>
  The same time value in UTC (Go's \<^verbatim>\<open>t.UTC()\<close>), and the comparison of calendar days
  in UTC.
\<close>

definition inUTC :: "Time \<Rightarrow> Time" where
  "inUTC t = t\<lparr>location := (\<lambda>sec. 0)\<rparr>"

definition onTargetDayUTC :: "Time \<Rightarrow> Session \<Rightarrow> bool" where
  "onTargetDayUTC date s =
     (Year (inUTC (StartTime s)) = Year (inUTC date)
        \<and> YearDay (inUTC (StartTime s)) = YearDay (inUTC date))"

text \<open>
  The instant of UTC midnight before the target date, and the length in nanoseconds of
  the part of a session inside the window from three to five hours after it:
  \<open>max(0, min(endTime, midnight + 5h) - max(startTime, midnight + 3h))\<close>.
\<close>

definition midnight :: "Time \<Rightarrow> int" where
  "midnight date = unixNano (Truncate date (24 * Hour))"

definition overlap :: "Time \<Rightarrow> Session \<Rightarrow> int" where
  "overlap date s =
     max 0 (min (unixNano (EndTime s)) (midnight date + 5 * Hour)
            - max (unixNano (StartTime s)) (midnight date + 3 * Hour))"

text \<open>What a session adds to the total of its key: its overlap when it starts on the
  target day, nothing otherwise.\<close>

definition contribution :: "Time \<Rightarrow> Session \<Rightarrow> int" where
  "contribution date s = (if onTargetDay date s then overlap date s else 0)"

text \<open>The sum of the contributions of the sessions accumulated under the key \<open>k\<close>.\<close>

definition keyTotal :: "Time \<Rightarrow> string \<Rightarrow> Session list \<Rightarrow> int" where
  "keyTotal date k sessions =
     sum_list (map (contribution date) (filter (\<lambda>s. userKey s = k) sessions))"

text \<open>
  The loop of \<^verbatim>\<open>CalculateTotalTimeForDate\<close> started from a map \<open>m\<close>, with the window
  bounds the function computes from the target date.
\<close>

definition aggregateFrom ::
  "Time \<Rightarrow> (string \<rightharpoonup> SessionTime) \<Rightarrow> Session list \<Rightarrow> (string \<rightharpoonup> SessionTime)" where
  "aggregateFrom date m sessions =
     sessionsLoop date (Truncate date (24 * Hour))
       (Add (Truncate date (24 * Hour)) (3 * Hour))
       (Add (Truncate date (24 * Hour)) (5 * Hour)) m sessions"

text \<open>The fields of a record other than its total, and what a session gives them.\<close>

definition recordIdentity :: "SessionTime \<Rightarrow> string \<times> string \<times> Time" where
  "recordIdentity r = (stName r, stGoogleID r, Date r)"

definition sessionIdentity :: "Time \<Rightarrow> Session \<Rightarrow> string \<times> string \<times> Time" where
  "sessionIdentity date s = (Name s, GoogleID s, Truncate date (24 * Hour))"

text \<open>The total recorded under a key, 0 when the map has no record for it.\<close>

definition recordedTotal :: "(string \<rightharpoonup> SessionTime) \<Rightarrow> string \<Rightarrow> Duration" where
  "recordedTotal m k = (case m k of None \<Rightarrow> 0 | Some r \<Rightarrow> TotalTime r)"

section \<open>Concrete inputs\<close>

text \<open>
  A UTC time given by its Unix seconds, a time given by its Unix seconds and the constant
  offset of its location, a few values of \<^verbatim>\<open>time.Parse\<close> on RFC3339 strings (every other
  string is treated as malformed), and an activity row with the fields the reconstruction
  reads.
\<close>

definition utc :: "int \<Rightarrow> Time" where
  "utc secs = \<lparr>unixNano = secs * Second, location = (\<lambda>sec. 0)\<rparr>"

definition zoned :: "int \<Rightarrow> int \<Rightarrow> Time" where
  "zoned secs off = \<lparr>unixNano = secs * Second, location = (\<lambda>sec. off)\<rparr>"

definition sampleParse :: parser where
  "sampleParse = map_of
     [(''2024-08-06T02:00:00Z'', utc 1722909600),
      (''2024-08-06T03:00:00Z'', utc 1722913200),
      (''2024-08-06T04:00:00Z'', utc 1722916800),
      (''2024-08-06T06:00:00Z'', utc 1722924000)]"

definition activity ::
  "string \<Rightarrow> string \<Rightarrow> string \<Rightarrow> string \<Rightarrow> 16 word \<Rightarrow> VoiceChannelUser" where
  "activity name uid created updated st =
     \<lparr>ID = 0, UserID = uid, ClanID = 0, ChannelID = 0, DisplayName = name,
      CreateTime = created, UpdateTime = updated, Active = st\<rparr>"


section \<open>Basic facts about the loops\<close>

lemma groupByName_lookup:
  "(case groupByName m acts k of None \<Rightarrow> [] | Some l \<Rightarrow> l) =
     (case m k of None \<Rightarrow> [] | Some l \<Rightarrow> l) @ activitiesOf k acts"
  by (induction acts arbitrary: m) (auto simp: activitiesOf_def)

text \<open>The value the map holds for a display name, read with an empty slice for a missing key.\<close>

lemma partition_lookup:
  "(case groupByName Map.empty activities k of None \<Rightarrow> [] | Some l \<Rightarrow> l) = activitiesOf k activities"
  using groupByName_lookup [of Map.empty activities k] by simp

lemma activityStep_prefix:
  "activityStep parse (cur, acc @ acc2) a = addPrefix acc (activityStep parse (cur, acc2) a)"
  by (cases cur) (auto split: option.splits)

lemma userLoop_prefix:
  "userLoop parse (cur, acc @ acc2) evs = addPrefix acc (userLoop parse (cur, acc2) evs)"
proof (induction evs arbitrary: cur acc2)
  case Nil
  show ?case by simp
next
  case (Cons a evs)
  show ?case
  proof (cases "activityStep parse (cur, acc2) a")
    case (Inl e)
    then show ?thesis by (simp add: activityStep_prefix)
  next
    case (Inr st)
    obtain c out where st: "st = (c, out)" by (cases st)
    show ?thesis using Inr st Cons.IH [of c out] by (simp add: activityStep_prefix)
  qed
qed

lemma userLoop_append:
  "userLoop parse st (xs @ ys) =
     (case userLoop parse st xs of Inl e \<Rightarrow> Inl e | Inr st' \<Rightarrow> userLoop parse st' ys)"
  by (induction xs arbitrary: st) (auto split: sum.splits)

lemma sampleParse_simps:
  "sampleParse ''2024-08-06T02:00:00Z'' = Some (utc 1722909600)"
  "sampleParse ''2024-08-06T03:00:00Z'' = Some (utc 1722913200)"
  "sampleParse ''2024-08-06T04:00:00Z'' = Some (utc 1722916800)"
  "sampleParse ''2024-08-06T06:00:00Z'' = Some (utc 1722924000)"
  "sampleParse ''yesterday'' = None"
  by (simp_all add: sampleParse_def)

section \<open>C1: bounds of emitted sessions\<close>

lemma activityStep_ordered:
  assumes "activityStep parse st a = Inr st'" and "stateOrdered st"
    and "Active a = 2 \<longrightarrow> createdBeforeUpdated parse a"
  shows "stateOrdered st'"
proof (cases st)
  case (Pair cur acc)
  show ?thesis
  proof (cases cur)
    case None
    with Pair assms show ?thesis
      by (auto simp: createdBeforeUpdated_def ordered_def split: if_splits option.splits)
  next
    case (Some c)
    with Pair assms show ?thesis
      by (auto simp: ordered_def minTime_def maxTime_def After_def Before_def
               split: if_splits option.splits)
  qed
qed

lemma userLoop_ordered:
  assumes "userLoop parse st evs = Inr st'" and "stateOrdered st"
    and "\<forall>a \<in> set evs. Active a = 2 \<longrightarrow> createdBeforeUpdated parse a"
  shows "stateOrdered st'"
  using assms
proof (induction evs arbitrary: st)
  case Nil
  then show ?case by simp
next
  case (Cons a evs)
  from Cons.prems(1) obtain st1 where s1: "activityStep parse st a = Inr st1"
    and s2: "userLoop parse st1 evs = Inr st'"
    by (auto split: sum.splits)
  have "stateOrdered st1"
    using activityStep_ordered [OF s1 Cons.prems(2)] Cons.prems(3) by simp
  then show ?case using Cons.IH [OF s2] Cons.prems(3) by simp
qed

lemma closeTrailing_ordered:
  "stateOrdered st \<Longrightarrow> \<forall>s \<in> set (closeTrailing st). ordered s"
  by (cases st rule: closeTrailing.cases) auto

lemma partition_subset:
  "set (case groupByName Map.empty activities k of None \<Rightarrow> [] | Some l \<Rightarrow> l) \<subseteq> set activities"
  by (simp add: groupByName_lookup activitiesOf_def)

lemma usersLoop_ordered:
  assumes "usersLoop parse (groupByName Map.empty activities) acc keys = Inr out"
    and "\<forall>s \<in> set acc. ordered s"
    and "\<forall>a \<in> set activities. Active a = 2 \<longrightarrow> createdBeforeUpdated parse a"
  shows "\<forall>s \<in> set out. ordered s"
  using assms(1,2)
proof (induction keys arbitrary: acc)
  case Nil
  then show ?case by simp
next
  case (Cons k keys)
  let ?evs = "case groupByName Map.empty activities k of None \<Rightarrow> [] | Some l \<Rightarrow> l"
  from Cons.prems(1) obtain st where l1: "userLoop parse (None, acc) ?evs = Inr st"
    and l2: "usersLoop parse (groupByName Map.empty activities) (closeTrailing st) keys = Inr out"
    by (auto split: sum.splits)
  have "\<forall>a \<in> set ?evs. Active a = 2 \<longrightarrow> createdBeforeUpdated parse a"
    using assms(3) partition_subset [of activities k] by blast
  with l1 Cons.prems(2) have "stateOrdered st"
    using userLoop_ordered [of parse "(None, acc)" ?evs st] by simp
  then show ?case using Cons.IH [OF l2] closeTrailing_ordered by blast
qed

text \<open>
  C1, as stated, fails: nothing in \<^verbatim>\<open>processActivities\<close> compares the creation time
  of the activity that opens a session with its update time. A single Active row whose
  update time is earlier than its creation time is emitted as a trailing session that
  starts after it ends.
\<close>

theorem reversed_bounds_counterexample:
  "processActivities sampleParse [''alice'']
     [activity ''alice'' ''u1'' ''2024-08-06T04:00:00Z'' ''2024-08-06T03:00:00Z'' 2]
   = [\<lparr>Name = ''alice'', GoogleID = ''u1'',
       StartTime = utc 1722916800, EndTime = utc 1722913200\<rparr>]
   \<and> After (utc 1722916800) (utc 1722913200)"
  by (simp add: processActivities_def processActivitiesE_def activity_def sampleParse_simps
        After_def utc_def Second_def)

text \<open>
  C1, amended: when every Active row (state 2) of the input has its creation time not
  after its update time, every session returned by \<^verbatim>\<open>processActivities\<close>, closed by an
  Inactive row or emitted at the end of its partition, has \<open>StartTime\<close> not after
  \<open>EndTime\<close>, whatever the order in which the partitions are visited.
\<close>

theorem sessions_ordered:
  assumes "\<forall>a \<in> set activities. Active a = 2 \<longrightarrow> createdBeforeUpdated parse a"
  shows "\<forall>s \<in> set (processActivities parse keys activities).
           \<not> After (StartTime s) (EndTime s)"
proof (cases "processActivitiesE parse keys activities")
  case (Inl e)
  then show ?thesis by (simp add: processActivities_def)
next
  case (Inr out)
  then have "\<forall>s \<in> set out. ordered s"
    using usersLoop_ordered [of parse activities "[]" keys out] assms
    by (simp add: processActivitiesE_def)
  with Inr show ?thesis by (simp add: processActivities_def ordered_def)
qed

theorem sessions_ordered_witness:
  "createdBeforeUpdated sampleParse
     (activity ''alice'' ''u1'' ''2024-08-06T03:00:00Z'' ''2024-08-06T04:00:00Z'' 2)
   \<and> processActivities sampleParse [''alice'']
       [activity ''alice'' ''u1'' ''2024-08-06T03:00:00Z'' ''2024-08-06T04:00:00Z'' 2]
     = [\<lparr>Name = ''alice'', GoogleID = ''u1'',
         StartTime = utc 1722913200, EndTime = utc 1722916800\<rparr>]
   \<and> \<not> After (utc 1722913200) (utc 1722916800)"
proof -
  let ?a = "activity ''alice'' ''u1'' ''2024-08-06T03:00:00Z'' ''2024-08-06T04:00:00Z'' 2"
  have c: "createdBeforeUpdated sampleParse ?a"
    by (simp add: createdBeforeUpdated_def activity_def sampleParse_simps After_def utc_def
          Second_def)
  then have h: "\<forall>a \<in> set [?a]. Active a = 2 \<longrightarrow> createdBeforeUpdated sampleParse a"
    by simp
  have r: "processActivities sampleParse [''alice''] [?a]
     = [\<lparr>Name = ''alice'', GoogleID = ''u1'',
         StartTime = utc 1722913200, EndTime = utc 1722916800\<rparr>]"
    by (simp add: processActivities_def processActivitiesE_def activity_def sampleParse_simps)
  show ?thesis
    using c r sessions_ordered [OF h, of "[''alice'']"] by simp
qed

section \<open>C2: malformed timestamps\<close>

lemma error_is_ParseError: "(e :: error) = ParseError"
  by (cases e)

lemma activityStep_open:
  assumes "activityStep parse (cur, acc) a = Inr (cur', acc')"
  shows "(cur' \<noteq> None) =
     (if Active a = 2 then True else if Active a = 0 then False else cur \<noteq> None)"
  using assms by (cases cur) (auto split: if_splits option.splits)

lemma userLoop_open:
  assumes "userLoop parse (cur, acc) pre = Inr (cur', acc')"
  shows "(cur' \<noteq> None) =
     (if filter (\<lambda>a. Active a = 2 \<or> Active a = 0) pre = [] then cur \<noteq> None
      else Active (last (filter (\<lambda>a. Active a = 2 \<or> Active a = 0) pre)) = 2)"
  using assms
proof (induction pre arbitrary: cur' acc' rule: rev_induct)
  case Nil
  then show ?case by simp
next
  case (snoc x xs)
  from snoc.prems obtain c1 a1 where l1: "userLoop parse (cur, acc) xs = Inr (c1, a1)"
    and l2: "activityStep parse (c1, a1) x = Inr (cur', acc')"
    by (auto simp: userLoop_append split: sum.splits)
  note ih = snoc.IH [OF l1]
  note st = activityStep_open [OF l2]
  show ?case
  proof (cases "Active x = 2 \<or> Active x = 0")
    case True
    then show ?thesis using st by auto
  next
    case False
    then show ?thesis using st ih by simp
  qed
qed

lemma userLoop_sessionOpen:
  "userLoop parse (None, acc) pre = Inr (cur', acc') \<Longrightarrow> (cur' \<noteq> None) = sessionOpenAfter pre"
  using userLoop_open [of parse None acc pre cur' acc'] by (simp add: sessionOpenAfter_def Let_def)

lemma usersLoop_error:
  assumes "k \<in> set keys"
    and "userLoop parse (None, []) (case m k of None \<Rightarrow> [] | Some l \<Rightarrow> l) = Inl ParseError"
  shows "usersLoop parse m acc keys = Inl ParseError"
  using assms(1)
proof (induction keys arbitrary: acc)
  case Nil
  then show ?case by simp
next
  case (Cons k' keys)
  show ?case
  proof (cases "k' = k")
    case True
    have "userLoop parse (None, acc @ []) (case m k of None \<Rightarrow> [] | Some l \<Rightarrow> l)
            = Inl ParseError"
      unfolding userLoop_prefix using assms(2) by simp
    then show ?thesis using True by simp
  next
    case False
    then have "k \<in> set keys" using Cons.prems by simp
    then show ?thesis using Cons.IH
      by (auto split: sum.splits intro: error_is_ParseError)
  qed
qed

lemma activityStep_error:
  assumes "activityStep parse (c, acc) e = Inl err"
  shows "(Active e = 2 \<and> (parse (CreateTime e) = None \<or> parse (UpdateTime e) = None))
         \<or> (Active e = 0 \<and> c \<noteq> None \<and> parse (UpdateTime e) = None)"
  using assms by (cases c) (auto split: if_splits option.splits)

lemma userLoop_error_split:
  assumes "userLoop parse st evs = Inl err"
  shows "\<exists>pre e post st1. evs = pre @ e # post \<and> userLoop parse st pre = Inr st1
           \<and> activityStep parse st1 e = Inl err"
  using assms
proof (induction evs arbitrary: st)
  case Nil
  then show ?case by simp
next
  case (Cons a evs)
  show ?case
  proof (cases "activityStep parse st a")
    case (Inl err')
    then have "activityStep parse st a = Inl err" using Cons.prems by simp
    then have "a # evs = [] @ a # evs \<and> userLoop parse st [] = Inr st
                 \<and> activityStep parse st a = Inl err"
      by simp
    then show ?thesis by blast
  next
    case (Inr st')
    then have "userLoop parse st' evs = Inl err" using Cons.prems by simp
    from Cons.IH [OF this] obtain pre e post st1 where
      "evs = pre @ e # post" "userLoop parse st' pre = Inr st1"
      "activityStep parse st1 e = Inl err"
      by blast
    then have "a # evs = (a # pre) @ e # post \<and> userLoop parse st (a # pre) = Inr st1
                 \<and> activityStep parse st1 e = Inl err"
      using Inr by simp
    then show ?thesis by blast
  qed
qed

lemma usersLoop_error_source:
  assumes "usersLoop parse m acc keys = Inl err"
  shows "\<exists>k \<in> set keys. \<exists>acc'.
           userLoop parse (None, acc') (case m k of None \<Rightarrow> [] | Some l \<Rightarrow> l) = Inl err"
  using assms
proof (induction keys arbitrary: acc)
  case Nil
  then show ?case by simp
next
  case (Cons k keys)
  show ?case
  proof (cases "userLoop parse (None, acc) (case m k of None \<Rightarrow> [] | Some l \<Rightarrow> l)")
    case (Inl err')
    then have "userLoop parse (None, acc) (case m k of None \<Rightarrow> [] | Some l \<Rightarrow> l) = Inl err"
      using Cons.prems by simp
    then show ?thesis by auto
  next
    case (Inr st)
    then have "usersLoop parse m (closeTrailing st) keys = Inl err"
      using Cons.prems by simp
    from Cons.IH [OF this] show ?thesis by auto
  qed
qed

lemma malformed_row_aborts:
  assumes "n \<in> set keys"
    and "activitiesOf n activities = pre @ e # post"
    and "parsedMalformed parse pre e"
  shows "processActivitiesE parse keys activities = Inl ParseError"
proof -
  have part: "(case groupByName Map.empty activities n of None \<Rightarrow> [] | Some l \<Rightarrow> l)
                = pre @ e # post"
    using groupByName_lookup [of Map.empty activities n] assms(2) by simp
  have "userLoop parse (None, []) (pre @ e # post) = Inl ParseError"
  proof (cases "userLoop parse (None, []) pre")
    case (Inl err)
    then show ?thesis by (simp add: userLoop_append error_is_ParseError)
  next
    case (Inr st)
    obtain c1 a1 where st: "st = (c1, a1)" by (cases st)
    have op: "(c1 \<noteq> None) = sessionOpenAfter pre"
      using userLoop_sessionOpen Inr st by simp
    have "activityStep parse (c1, a1) e = Inl ParseError"
      using assms(3) op by (cases c1) (auto simp: parsedMalformed_def split: option.splits)
    then show ?thesis using Inr st by (simp add: userLoop_append)
  qed
  then have "usersLoop parse (groupByName Map.empty activities) [] keys = Inl ParseError"
    using usersLoop_error [OF assms(1), of parse "groupByName Map.empty activities" "[]"] part
    by simp
  then show ?thesis by (simp add: processActivitiesE_def)
qed

lemma abort_has_malformed_row:
  assumes "processActivitiesE parse keys activities = Inl err"
  shows "\<exists>n pre e post. n \<in> set keys \<and> activitiesOf n activities = pre @ e # post
           \<and> parsedMalformed parse pre e"
proof -
  from assms obtain k acc' where k: "k \<in> set keys"
    and l: "userLoop parse (None, acc') (activitiesOf k activities) = Inl err"
    using usersLoop_error_source [of parse "groupByName Map.empty activities" "[]" keys err]
    by (auto simp: processActivitiesE_def partition_lookup)
  from userLoop_error_split [OF l] obtain pre e post st1 where
    sp: "activitiesOf k activities = pre @ e # post"
    and p: "userLoop parse (None, acc') pre = Inr st1"
    and s: "activityStep parse st1 e = Inl err"
    by blast
  obtain c1 a1 where st: "st1 = (c1, a1)" by (cases st1)
  have op: "(c1 \<noteq> None) = sessionOpenAfter pre"
    using userLoop_sessionOpen p st by simp
  have "parsedMalformed parse pre e"
    using activityStep_error [of parse c1 a1 e err] s st op
    by (auto simp: parsedMalformed_def)
  then show ?thesis using k sp by blast
qed

text \<open>
  C2, amended: \<^verbatim>\<open>processActivities\<close> aborts the whole batch and returns nil exactly
  when it parses a malformed timestamp, and the timestamps it parses are the creation and
  update time of every Active row (state 2) and the update time of an Inactive row
  (state 0) that arrives while a session is open in its partition. So, whatever the order
  in which the partitions are visited, the batch is aborted if and only if some partition
  has such a row with such a malformed timestamp. A malformed timestamp anywhere else (the
  creation time of an Inactive row, either timestamp of an Inactive row arriving while no
  session is open or of a row with another state) does not abort it.
\<close>

theorem malformed_aborts:
  assumes "rangeOrder keys activities"
  shows "(processActivitiesE parse keys activities = Inl ParseError)
           = (\<exists>n pre e post. activitiesOf n activities = pre @ e # post
                \<and> parsedMalformed parse pre e)
     \<and> (processActivitiesE parse keys activities = Inl ParseError
           \<longrightarrow> processActivities parse keys activities = [])"
proof -
  have "\<exists>n pre e post. activitiesOf n activities = pre @ e # post
          \<and> parsedMalformed parse pre e"
    if "processActivitiesE parse keys activities = Inl ParseError"
    using abort_has_malformed_row [OF that] by blast
  moreover have "processActivitiesE parse keys activities = Inl ParseError"
    if "activitiesOf n activities = pre @ e # post" "parsedMalformed parse pre e"
    for n pre e post
  proof -
    have "e \<in> set (activitiesOf n activities)" using that(1) by simp
    then have "n \<in> set (map DisplayName activities)"
      by (auto simp: activitiesOf_def)
    then have "n \<in> set keys" using assms by (simp add: rangeOrder_def)
    then show ?thesis using malformed_row_aborts that by blast
  qed
  ultimately show ?thesis by (auto simp: processActivities_def)
qed

text \<open>
  C2, as stated, fails: the creation time of an Inactive row is never parsed, and no
  timestamp is parsed of an Inactive row that arrives while no session is open or of a row
  with another state. Such rows may be malformed and the sessions are still returned.
\<close>

theorem unparsed_malformed_counterexample:
  "sampleParse ''yesterday'' = None
   \<and> processActivities sampleParse [''alice'']
       [activity ''alice'' ''u1'' ''2024-08-06T03:00:00Z'' ''2024-08-06T03:00:00Z'' 2,
        activity ''alice'' ''u1'' ''yesterday'' ''2024-08-06T04:00:00Z'' 0,
        activity ''alice'' ''u1'' ''yesterday'' ''yesterday'' 0,
        activity ''alice'' ''u1'' ''yesterday'' ''yesterday'' 1]
     = [\<lparr>Name = ''alice'', GoogleID = ''u1'',
         StartTime = utc 1722913200, EndTime = utc 1722916800\<rparr>]"
  by (simp add: processActivities_def processActivitiesE_def activity_def sampleParse_simps
        minTime_def maxTime_def Before_def After_def utc_def Second_def)

theorem malformed_aborts_witness:
  "rangeOrder [''alice'', ''bob'']
     [activity ''bob'' ''u2'' ''2024-08-06T02:00:00Z'' ''2024-08-06T06:00:00Z'' 2,
      activity ''alice'' ''u1'' ''2024-08-06T03:00:00Z'' ''2024-08-06T03:00:00Z'' 2,
      activity ''alice'' ''u1'' ''2024-08-06T04:00:00Z'' ''yesterday'' 0]
   \<and> sessionOpenAfter
       [activity ''alice'' ''u1'' ''2024-08-06T03:00:00Z'' ''2024-08-06T03:00:00Z'' 2]
   \<and> sampleParse ''yesterday'' = None
   \<and> parsedMalformed sampleParse
       [activity ''alice'' ''u1'' ''2024-08-06T03:00:00Z'' ''2024-08-06T03:00:00Z'' 2]
       (activity ''alice'' ''u1'' ''2024-08-06T04:00:00Z'' ''yesterday'' 0)
   \<and> processActivitiesE sampleParse [''alice'', ''bob'']
     [activity ''bob'' ''u2'' ''2024-08-06T02:00:00Z'' ''2024-08-06T06:00:00Z'' 2,
      activity ''alice'' ''u1'' ''2024-08-06T03:00:00Z'' ''2024-08-06T03:00:00Z'' 2,
      activity ''alice'' ''u1'' ''2024-08-06T04:00:00Z'' ''yesterday'' 0] = Inl ParseError
   \<and> processActivities sampleParse [''alice'', ''bob'']
     [activity ''bob'' ''u2'' ''2024-08-06T02:00:00Z'' ''2024-08-06T06:00:00Z'' 2,
      activity ''alice'' ''u1'' ''2024-08-06T03:00:00Z'' ''2024-08-06T03:00:00Z'' 2,
      activity ''alice'' ''u1'' ''2024-08-06T04:00:00Z'' ''yesterday'' 0] = []"
proof -
  let ?b = "activity ''bob'' ''u2'' ''2024-08-06T02:00:00Z'' ''2024-08-06T06:00:00Z'' 2"
  let ?a = "activity ''alice'' ''u1'' ''2024-08-06T03:00:00Z'' ''2024-08-06T03:00:00Z'' 2"
  let ?e = "activity ''alice'' ''u1'' ''2024-08-06T04:00:00Z'' ''yesterday'' 0"
  have r: "rangeOrder [''alice'', ''bob''] [?b, ?a, ?e]"
    by (auto simp: rangeOrder_def activity_def)
  have p: "activitiesOf ''alice'' [?b, ?a, ?e] = [?a] @ ?e # []"
    by (simp add: activitiesOf_def activity_def)
  have o: "sessionOpenAfter [?a]"
    by (simp add: sessionOpenAfter_def activity_def)
  have m: "sampleParse ''yesterday'' = None" by (simp add: sampleParse_simps)
  have h: "parsedMalformed sampleParse [?a] ?e"
    using o m by (simp add: parsedMalformed_def activity_def)
  have ex: "\<exists>n pre e post. activitiesOf n [?b, ?a, ?e] = pre @ e # post
              \<and> parsedMalformed sampleParse pre e"
    using p h by blast
  have "processActivitiesE sampleParse [''alice'', ''bob''] [?b, ?a, ?e] = Inl ParseError
        \<and> processActivities sampleParse [''alice'', ''bob''] [?b, ?a, ?e] = []"
    using malformed_aborts [OF r, of sampleParse] ex by blast
  then show ?thesis using r o m h by simp
qed

section \<open>C7: widening of an open session\<close>

lemma unixNano_minTime: "unixNano (minTime a b) = min (unixNano a) (unixNano b)"
  by (simp add: minTime_def Before_def min_def)

lemma unixNano_maxTime: "unixNano (maxTime a b) = max (unixNano a) (unixNano b)"
  by (simp add: maxTime_def After_def max_def)

lemma Min_insert_min:
  "finite S \<Longrightarrow> Min (insert (min x y) S) = Min (insert (x::int) (insert y S))"
  by (cases "S = {}") (simp_all add: min.assoc)

lemma Max_insert_max:
  "finite S \<Longrightarrow> Max (insert (max x y) S) = Max (insert (x::int) (insert y S))"
  by (cases "S = {}") (simp_all add: max.assoc)

lemma activityStep_widen:
  assumes "activeParsed parse a"
  shows "\<exists>s1. activityStep parse (Some s, sessions) a = Inr (Some s1, sessions)
     \<and> unixNano (StartTime s1) = min (unixNano (StartTime s)) (createdNano parse a)
     \<and> unixNano (EndTime s1) = max (unixNano (EndTime s)) (updatedNano parse a)
     \<and> Name s1 = Name s \<and> GoogleID s1 = GoogleID s"
  using assms
  by (auto simp: activeParsed_def createdNano_def updatedNano_def unixNano_minTime
        unixNano_maxTime)

text \<open>
  C7: starting from an open session \<open>s\<close>, a run of Active rows (state 2, timestamps
  parsing) leaves the slice of emitted sessions as it was and leaves one open session,
  whose start is the minimum of the start of \<open>s\<close> and the creation times of the rows and
  whose end is the maximum of the end of \<open>s\<close> and their update times. So the start never
  grows, the end never shrinks, and no further session is created. For a single row this
  is \<open>startTime = min(startTime, createdAt)\<close> and \<open>endTime = max(endTime, updatedAt)\<close>.
\<close>

theorem active_rows_widen:
  assumes "\<forall>a \<in> set evs. activeParsed parse a"
  shows "\<exists>s'. userLoop parse (Some s, sessions) evs = Inr (Some s', sessions)
     \<and> unixNano (StartTime s')
         = Min (insert (unixNano (StartTime s)) (createdNano parse ` set evs))
     \<and> unixNano (EndTime s')
         = Max (insert (unixNano (EndTime s)) (updatedNano parse ` set evs))
     \<and> unixNano (StartTime s') \<le> unixNano (StartTime s)
     \<and> unixNano (EndTime s) \<le> unixNano (EndTime s')
     \<and> Name s' = Name s \<and> GoogleID s' = GoogleID s"
  using assms
proof (induction evs arbitrary: s)
  case Nil
  show ?case by simp
next
  case (Cons a evs)
  from Cons.prems have "activeParsed parse a" by simp
  from activityStep_widen [OF this, of s sessions] obtain s1 where
    st: "activityStep parse (Some s, sessions) a = Inr (Some s1, sessions)"
    and lo: "unixNano (StartTime s1) = min (unixNano (StartTime s)) (createdNano parse a)"
    and hi: "unixNano (EndTime s1) = max (unixNano (EndTime s)) (updatedNano parse a)"
    and id: "Name s1 = Name s" "GoogleID s1 = GoogleID s"
    by blast
  from Cons.prems have "\<forall>a \<in> set evs. activeParsed parse a" by simp
  from Cons.IH [OF this, of s1] obtain s' where
    run: "userLoop parse (Some s1, sessions) evs = Inr (Some s', sessions)"
    and lo': "unixNano (StartTime s')
         = Min (insert (unixNano (StartTime s1)) (createdNano parse ` set evs))"
    and hi': "unixNano (EndTime s')
         = Max (insert (unixNano (EndTime s1)) (updatedNano parse ` set evs))"
    and id': "Name s' = Name s1" "GoogleID s' = GoogleID s1"
    by blast
  have a: "userLoop parse (Some s, sessions) (a # evs) = Inr (Some s', sessions)"
    using st run by simp
  have b: "unixNano (StartTime s')
         = Min (insert (unixNano (StartTime s)) (createdNano parse ` set (a # evs)))"
    using lo lo' by (simp add: Min_insert_min)
  have c: "unixNano (EndTime s')
         = Max (insert (unixNano (EndTime s)) (updatedNano parse ` set (a # evs)))"
    using hi hi' by (simp add: Max_insert_max)
  have d: "unixNano (StartTime s') \<le> unixNano (StartTime s)"
    unfolding b by (rule Min_le) simp_all
  have e: "unixNano (EndTime s) \<le> unixNano (EndTime s')"
    unfolding c by (rule Max_ge) simp_all
  show ?case using a b c d e id id' by simp
qed

theorem active_rows_widen_witness:
  "activeParsed sampleParse
     (activity ''alice'' ''u1'' ''2024-08-06T02:00:00Z'' ''2024-08-06T04:00:00Z'' 2)
   \<and> activeParsed sampleParse
     (activity ''alice'' ''u1'' ''2024-08-06T04:00:00Z'' ''2024-08-06T06:00:00Z'' 2)
   \<and> userLoop sampleParse
       (Some \<lparr>Name = ''alice'', GoogleID = ''u1'',
          StartTime = utc 1722913200, EndTime = utc 1722913200\<rparr>, [])
       [activity ''alice'' ''u1'' ''2024-08-06T02:00:00Z'' ''2024-08-06T04:00:00Z'' 2,
        activity ''alice'' ''u1'' ''2024-08-06T04:00:00Z'' ''2024-08-06T06:00:00Z'' 2]
     = Inr (Some \<lparr>Name = ''alice'', GoogleID = ''u1'',
          StartTime = utc 1722909600, EndTime = utc 1722924000\<rparr>, [])
   \<and> unixNano (utc 1722909600) \<le> unixNano (utc 1722913200)
   \<and> unixNano (utc 1722913200) \<le> unixNano (utc 1722924000)"
proof -
  let ?a = "activity ''alice'' ''u1'' ''2024-08-06T02:00:00Z'' ''2024-08-06T04:00:00Z'' 2"
  let ?b = "activity ''alice'' ''u1'' ''2024-08-06T04:00:00Z'' ''2024-08-06T06:00:00Z'' 2"
  let ?s = "\<lparr>Name = ''alice'', GoogleID = ''u1'',
          StartTime = utc 1722913200, EndTime = utc 1722913200\<rparr>"
  have pa: "activeParsed sampleParse ?a" and pb: "activeParsed sampleParse ?b"
    by (simp_all add: activeParsed_def activity_def sampleParse_simps)
  then have h: "\<forall>a \<in> set [?a, ?b]. activeParsed sampleParse a" by simp
  have r: "userLoop sampleParse (Some ?s, []) [?a, ?b]
     = Inr (Some \<lparr>Name = ''alice'', GoogleID = ''u1'',
          StartTime = utc 1722909600, EndTime = utc 1722924000\<rparr>, [])"
    by (simp add: activity_def sampleParse_simps minTime_def maxTime_def Before_def After_def
          utc_def Second_def)
  show ?thesis
    using pa pb r active_rows_widen [OF h, of ?s "[]"] by simp
qed

section \<open>The output as the concatenation of the partitions' sessions\<close>

lemma closeTrailing_prefix:
  "closeTrailing (c, acc @ out) = acc @ closeTrailing (c, out)"
  by (cases c) simp_all

lemma userLoop_partitionSessions:
  "(case userLoop parse (None, acc) evs of Inl e \<Rightarrow> Inl e | Inr st \<Rightarrow> Inr (closeTrailing st)) =
     (case partitionSessions parse evs of Inl e \<Rightarrow> Inl e | Inr out \<Rightarrow> Inr (acc @ out))"
proof -
  have "userLoop parse (None, acc @ []) evs = addPrefix acc (userLoop parse (None, []) evs)"
    by (rule userLoop_prefix)
  then show ?thesis
    by (cases "userLoop parse (None, []) evs")
       (auto simp: partitionSessions_def closeTrailing_prefix)
qed

lemma usersLoop_unfold:
  "usersLoop parse m acc (k # keys) =
     (case partitionSessions parse (case m k of None \<Rightarrow> [] | Some l \<Rightarrow> l) of
        Inl e \<Rightarrow> Inl e
      | Inr out \<Rightarrow> usersLoop parse m (acc @ out) keys)"
proof -
  let ?evs = "case m k of None \<Rightarrow> [] | Some l \<Rightarrow> l"
  show ?thesis
    using userLoop_partitionSessions [of parse acc ?evs]
    by (cases "userLoop parse (None, acc) ?evs"; cases "partitionSessions parse ?evs") auto
qed

lemma usersLoop_parts_ok:
  assumes "usersLoop parse m acc keys = Inr out" and "k \<in> set keys"
  shows "\<exists>p. partitionSessions parse (case m k of None \<Rightarrow> [] | Some l \<Rightarrow> l) = Inr p"
  using assms
proof (induction keys arbitrary: acc)
  case Nil
  then show ?case by simp
next
  case (Cons k' keys)
  from Cons.prems(1) obtain p where
    p: "partitionSessions parse (case m k' of None \<Rightarrow> [] | Some l \<Rightarrow> l) = Inr p"
    and rest: "usersLoop parse m (acc @ p) keys = Inr out"
    unfolding usersLoop_unfold by (auto split: sum.splits)
  show ?case
  proof (cases "k = k'")
    case True
    then show ?thesis using p by blast
  next
    case False
    then show ?thesis using Cons.IH [OF rest] Cons.prems(2) by simp
  qed
qed

lemma usersLoop_concat:
  assumes "usersLoop parse m acc keys = Inr out"
  shows "out = acc @ concat (map (\<lambda>k.
           case partitionSessions parse (case m k of None \<Rightarrow> [] | Some l \<Rightarrow> l) of
             Inl e \<Rightarrow> [] | Inr p \<Rightarrow> p) keys)"
  using assms
proof (induction keys arbitrary: acc)
  case Nil
  then show ?case by simp
next
  case (Cons k' keys)
  from Cons.prems(1) obtain p where
    p: "partitionSessions parse (case m k' of None \<Rightarrow> [] | Some l \<Rightarrow> l) = Inr p"
    and rest: "usersLoop parse m (acc @ p) keys = Inr out"
    unfolding usersLoop_unfold by (auto split: sum.splits)
  show ?case using Cons.IH [OF rest] p by simp
qed


lemma activityStep_named:
  assumes "activityStep parse st a = Inr st'" and "stateNamed n st" and "DisplayName a = n"
  shows "stateNamed n st'"
proof (cases st)
  case (Pair cur acc)
  with assms show ?thesis
    by (cases cur) (auto split: if_splits option.splits)
qed

lemma userLoop_named:
  assumes "userLoop parse st evs = Inr st'" and "stateNamed n st"
    and "\<forall>a \<in> set evs. DisplayName a = n"
  shows "stateNamed n st'"
  using assms
proof (induction evs arbitrary: st)
  case Nil
  then show ?case by simp
next
  case (Cons a evs)
  from Cons.prems(1) obtain st1 where s1: "activityStep parse st a = Inr st1"
    and s2: "userLoop parse st1 evs = Inr st'"
    by (auto split: sum.splits)
  have "stateNamed n st1"
    using activityStep_named [OF s1 Cons.prems(2)] Cons.prems(3) by simp
  then show ?case using Cons.IH [OF s2] Cons.prems(3) by simp
qed

lemma partitionSessions_named:
  assumes "partitionSessions parse evs = Inr p" and "\<forall>a \<in> set evs. DisplayName a = n"
  shows "\<forall>s \<in> set p. Name s = n"
proof -
  from assms(1) obtain st where l: "userLoop parse (None, []) evs = Inr st"
    and p: "p = closeTrailing st"
    by (auto simp: partitionSessions_def split: sum.splits)
  have "stateNamed n st" using userLoop_named [OF l _ assms(2)] by simp
  then show ?thesis unfolding p by (cases st rule: closeTrailing.cases) auto
qed

lemma concat_single_key:
  assumes "distinct keys" and "n \<in> set keys" and "\<forall>k \<in> set keys. k \<noteq> n \<longrightarrow> g k = []"
  shows "concat (map g keys) = g n"
  using assms
proof (induction keys)
  case Nil
  then show ?case by simp
next
  case (Cons k keys)
  show ?case
  proof (cases "k = n")
    case True
    then have "\<forall>k' \<in> set keys. g k' = []" using Cons.prems by auto
    then have "concat (map g keys) = []" by simp
    then show ?thesis using True by simp
  next
    case False
    then show ?thesis using Cons by auto
  qed
qed

lemma processActivitiesE_concat:
  assumes "processActivitiesE parse keys activities = Inr out"
  shows "out = concat (map (\<lambda>k.
           case partitionSessions parse (activitiesOf k activities) of
             Inl e \<Rightarrow> [] | Inr p \<Rightarrow> p) keys)"
  using usersLoop_concat [of parse "groupByName Map.empty activities" "[]" keys out] assms
  by (simp add: processActivitiesE_def partition_lookup)

section \<open>C8: a trailing open session\<close>

text \<open>
  C8: when the partition of display name \<open>n\<close> consists of exactly one row, an Active row
  (state 2) whose creation time parses to \<open>T0\<close> and whose update time parses to \<open>T1\<close>,
  and the reconstruction returns sessions (no timestamp of another partition fails to
  parse), the sessions returned for \<open>n\<close> are exactly one, from \<open>T0\<close> to \<open>T1\<close>, although
  no Inactive row closed it.
\<close>

theorem trailing_session:
  assumes "rangeOrder keys activities"
    and "activitiesOf n activities = [e]"
    and "Active e = 2"
    and "parse (CreateTime e) = Some T0"
    and "parse (UpdateTime e) = Some T1"
    and "processActivitiesE parse keys activities = Inr out"
  shows "processActivities parse keys activities = out
     \<and> filter (\<lambda>s. Name s = n) out
         = [\<lparr>Name = n, GoogleID = UserID e, StartTime = T0, EndTime = T1\<rparr>]"
proof -
  let ?f = "\<lambda>k. case partitionSessions parse (activitiesOf k activities) of
             Inl e \<Rightarrow> [] | Inr p \<Rightarrow> p"
  let ?g = "\<lambda>k. filter (\<lambda>s. Name s = n) (?f k)"
  have "e \<in> set (activitiesOf n activities)" using assms(2) by simp
  then have en: "DisplayName e = n" and "e \<in> set activities"
    by (auto simp: activitiesOf_def)
  then have k: "n \<in> set keys" and d: "distinct keys"
    using assms(1) by (auto simp: rangeOrder_def)
  have out: "out = concat (map ?f keys)"
    by (rule processActivitiesE_concat [OF assms(6)])
  have other: "\<forall>k \<in> set keys. k \<noteq> n \<longrightarrow> ?g k = []"
  proof (intro ballI impI)
    fix k assume "k \<in> set keys" "k \<noteq> n"
    show "?g k = []"
    proof (cases "partitionSessions parse (activitiesOf k activities)")
      case (Inl err)
      then show ?thesis by simp
    next
      case (Inr p)
      have "\<forall>a \<in> set (activitiesOf k activities). DisplayName a = k"
        by (simp add: activitiesOf_def)
      from partitionSessions_named [OF Inr this] \<open>k \<noteq> n\<close> Inr show ?thesis
        by (auto simp: filter_empty_conv)
    qed
  qed
  have own: "?g n = [\<lparr>Name = n, GoogleID = UserID e, StartTime = T0, EndTime = T1\<rparr>]"
    using assms(2-5) en by (simp add: partitionSessions_def)
  have "filter (\<lambda>s. Name s = n) out = concat (map ?g keys)"
    unfolding out by (simp add: filter_concat comp_def)
  also have "\<dots> = ?g n" by (rule concat_single_key [OF d k other])
  finally show ?thesis using own assms(6) by (simp add: processActivities_def)
qed

theorem trailing_session_witness:
  "rangeOrder [''alice'']
     [activity ''alice'' ''u1'' ''2024-08-06T03:00:00Z'' ''2024-08-06T04:00:00Z'' 2]
   \<and> sampleParse ''2024-08-06T03:00:00Z'' = Some (utc 1722913200)
   \<and> sampleParse ''2024-08-06T04:00:00Z'' = Some (utc 1722916800)
   \<and> processActivities sampleParse [''alice'']
       [activity ''alice'' ''u1'' ''2024-08-06T03:00:00Z'' ''2024-08-06T04:00:00Z'' 2]
     = [\<lparr>Name = ''alice'', GoogleID = ''u1'',
         StartTime = utc 1722913200, EndTime = utc 1722916800\<rparr>]
   \<and> filter (\<lambda>s. Name s = ''alice'')
       [\<lparr>Name = ''alice'', GoogleID = ''u1'',
         StartTime = utc 1722913200, EndTime = utc 1722916800\<rparr>]
     = [\<lparr>Name = ''alice'', GoogleID = ''u1'',
         StartTime = utc 1722913200, EndTime = utc 1722916800\<rparr>]"
proof -
  let ?e = "activity ''alice'' ''u1'' ''2024-08-06T03:00:00Z'' ''2024-08-06T04:00:00Z'' 2"
  let ?s = "\<lparr>Name = ''alice'', GoogleID = ''u1'',
         StartTime = utc 1722913200, EndTime = utc 1722916800\<rparr>"
  have r: "rangeOrder [''alice''] [?e]"
    by (simp add: rangeOrder_def activity_def)
  have p: "activitiesOf ''alice'' [?e] = [?e]"
    by (simp add: activitiesOf_def activity_def)
  have a: "Active ?e = 2" by (simp add: activity_def)
  have c: "sampleParse (CreateTime ?e) = Some (utc 1722913200)"
    and u: "sampleParse (UpdateTime ?e) = Some (utc 1722916800)"
    by (simp_all add: activity_def sampleParse_simps)
  have o: "processActivitiesE sampleParse [''alice''] [?e] = Inr [?s]"
    by (simp add: processActivitiesE_def activity_def sampleParse_simps)
  show ?thesis
    using r c u trailing_session [OF r p a c u o] by (simp add: activity_def)
qed

section \<open>C9: rows that are passed over\<close>

lemma activityStep_ignored:
  assumes "(Active e = 0 \<and> c = None) \<or> (Active e \<noteq> 2 \<and> Active e \<noteq> 0)"
  shows "activityStep parse (c, acc) e = Inr (c, acc)"
  using assms by (cases c) auto

lemma userLoop_skip:
  assumes "ignoredRow xs e"
  shows "userLoop parse (None, acc) (xs @ e # ys) = userLoop parse (None, acc) (xs @ ys)"
proof (cases "userLoop parse (None, acc) xs")
  case (Inl err)
  then show ?thesis by (simp add: userLoop_append)
next
  case (Inr st)
  obtain c1 a1 where st: "st = (c1, a1)" by (cases st)
  have "(c1 \<noteq> None) = sessionOpenAfter xs"
    using userLoop_sessionOpen Inr st by simp
  then have "activityStep parse (c1, a1) e = Inr (c1, a1)"
    using assms by (intro activityStep_ignored) (auto simp: ignoredRow_def)
  then show ?thesis using Inr st by (simp add: userLoop_append)
qed

lemma usersLoop_cong:
  assumes "\<forall>k \<in> set keys. \<forall>acc.
      userLoop parse (None, acc) (case m k of None \<Rightarrow> [] | Some l \<Rightarrow> l)
      = userLoop parse (None, acc) (case m' k of None \<Rightarrow> [] | Some l \<Rightarrow> l)"
  shows "usersLoop parse m acc keys = usersLoop parse m' acc keys"
  using assms by (induction keys arbitrary: acc) (auto split: sum.splits)

lemma usersLoop_skip_empty:
  "usersLoop parse m acc keys =
     usersLoop parse m acc (filter (\<lambda>k. (case m k of None \<Rightarrow> [] | Some l \<Rightarrow> l) \<noteq> []) keys)"
  by (induction keys arbitrary: acc) (auto split: sum.splits)

lemma activitiesOf_nonempty:
  "(activitiesOf k activities \<noteq> []) = (k \<in> set (map DisplayName activities))"
  by (auto simp: activitiesOf_def filter_empty_conv)

lemma processActivitiesE_remainingKeys:
  "processActivitiesE parse keys activities =
     processActivitiesE parse (remainingKeys keys activities) activities"
  unfolding processActivitiesE_def remainingKeys_def
  by (subst usersLoop_skip_empty) (simp add: partition_lookup activitiesOf_nonempty)

lemma rangeOrder_remainingKeys:
  assumes "rangeOrder keys (pre @ e # post)"
  shows "rangeOrder (remainingKeys keys (pre @ post)) (pre @ post)"
  using assms by (auto simp: rangeOrder_def remainingKeys_def)

lemma processActivitiesE_skip:
  assumes "ignoredRow (activitiesOf (DisplayName e) pre) e"
  shows "processActivitiesE parse keys (pre @ e # post) = processActivitiesE parse keys (pre @ post)"
  unfolding processActivitiesE_def
proof (rule usersLoop_cong, intro ballI allI)
  fix k acc
  show "userLoop parse (None, acc)
          (case groupByName Map.empty (pre @ e # post) k of None \<Rightarrow> [] | Some l \<Rightarrow> l)
      = userLoop parse (None, acc)
          (case groupByName Map.empty (pre @ post) k of None \<Rightarrow> [] | Some l \<Rightarrow> l)"
  proof (cases "DisplayName e = k")
    case True
    have "activitiesOf k (pre @ e # post) = activitiesOf k pre @ e # activitiesOf k post"
      and "activitiesOf k (pre @ post) = activitiesOf k pre @ activitiesOf k post"
      using True by (simp_all add: activitiesOf_def)
    then show ?thesis
      using userLoop_skip [of "activitiesOf k pre" e parse acc "activitiesOf k post"] assms True
      by (simp add: partition_lookup)
  next
    case False
    then have "activitiesOf k (pre @ e # post) = activitiesOf k (pre @ post)"
      by (simp add: activitiesOf_def)
    then show ?thesis by (simp add: partition_lookup)
  qed
qed

text \<open>
  C9: a row \<open>e\<close> that is Inactive (state 0) and arrives while no session is open in its
  partition, or whose state is neither Active (2) nor Inactive (0), is passed over:
  removing it from the input leaves the result of \<^verbatim>\<open>processActivities\<close> unchanged, the
  remaining partitions being visited in the same order (the key of \<open>e\<close> is no longer
  visited when \<open>e\<close> was the only row of its partition).
\<close>

theorem ignored_row_removable:
  assumes "ignoredRow (activitiesOf (DisplayName e) pre) e"
  shows "processActivities parse keys (pre @ e # post)
           = processActivities parse (remainingKeys keys (pre @ post)) (pre @ post)
     \<and> processActivitiesE parse keys (pre @ e # post)
           = processActivitiesE parse (remainingKeys keys (pre @ post)) (pre @ post)
     \<and> (rangeOrder keys (pre @ e # post)
           \<longrightarrow> rangeOrder (remainingKeys keys (pre @ post)) (pre @ post))"
proof -
  have "processActivitiesE parse keys (pre @ e # post)
           = processActivitiesE parse (remainingKeys keys (pre @ post)) (pre @ post)"
    using processActivitiesE_skip [OF assms, of parse keys post]
      processActivitiesE_remainingKeys [of parse keys "pre @ post"] by simp
  then show ?thesis
    using rangeOrder_remainingKeys [of keys pre e post] by (simp add: processActivities_def)
qed

theorem ignored_row_removable_witness:
  "ignoredRow (activitiesOf ''bob'' []) (activity ''bob'' ''u2'' ''yesterday'' ''yesterday'' 0)
   \<and> remainingKeys [''bob'', ''alice'']
       [activity ''alice'' ''u1'' ''2024-08-06T03:00:00Z'' ''2024-08-06T04:00:00Z'' 2]
     = [''alice'']
   \<and> processActivities sampleParse [''bob'', ''alice'']
       [activity ''bob'' ''u2'' ''yesterday'' ''yesterday'' 0,
        activity ''alice'' ''u1'' ''2024-08-06T03:00:00Z'' ''2024-08-06T04:00:00Z'' 2]
     = processActivities sampleParse [''alice'']
       [activity ''alice'' ''u1'' ''2024-08-06T03:00:00Z'' ''2024-08-06T04:00:00Z'' 2]
   \<and> processActivities sampleParse [''alice'']
       [activity ''alice'' ''u1'' ''2024-08-06T03:00:00Z'' ''2024-08-06T04:00:00Z'' 2]
     = [\<lparr>Name = ''alice'', GoogleID = ''u1'',
         StartTime = utc 1722913200, EndTime = utc 1722916800\<rparr>]"
proof -
  let ?e = "activity ''bob'' ''u2'' ''yesterday'' ''yesterday'' 0"
  let ?a = "activity ''alice'' ''u1'' ''2024-08-06T03:00:00Z'' ''2024-08-06T04:00:00Z'' 2"
  have i: "ignoredRow (activitiesOf ''bob'' []) ?e"
    by (simp add: ignoredRow_def activitiesOf_def sessionOpenAfter_def activity_def)
  then have i': "ignoredRow (activitiesOf (DisplayName ?e) []) ?e"
    by (simp add: activity_def)
  have k: "remainingKeys [''bob'', ''alice''] [?a] = [''alice'']"
    by (simp add: remainingKeys_def activity_def)
  have r: "processActivities sampleParse [''alice''] [?a]
     = [\<lparr>Name = ''alice'', GoogleID = ''u1'',
         StartTime = utc 1722913200, EndTime = utc 1722916800\<rparr>]"
    by (simp add: processActivities_def processActivitiesE_def activity_def sampleParse_simps)
  have "processActivities sampleParse [''bob'', ''alice''] ([] @ ?e # [?a])
           = processActivities sampleParse (remainingKeys [''bob'', ''alice''] ([] @ [?a])) ([] @ [?a])"
    using ignored_row_removable [OF i', of sampleParse "[''bob'', ''alice'']" "[?a]"] by blast
  then show ?thesis using i k r by simp
qed

section \<open>C10: the identity carried by a session\<close>

lemma userLoop_None_prefix:
  assumes "userLoop parse (None, acc) evs = Inr st"
  shows "\<exists>rest. closeTrailing st = acc @ rest"
proof -
  have "userLoop parse (None, acc @ []) evs = addPrefix acc (userLoop parse (None, []) evs)"
    by (rule userLoop_prefix)
  with assms show ?thesis
    by (cases "userLoop parse (None, []) evs") (auto simp: closeTrailing_prefix)
qed

lemma userLoop_keeps_identity:
  assumes "userLoop parse (Some s, sessions) evs = Inr st"
  shows "\<exists>s' rest. closeTrailing st = sessions @ s' # rest
           \<and> GoogleID s' = GoogleID s \<and> Name s' = Name s"
  using assms
proof (induction evs arbitrary: s)
  case Nil
  then show ?case by auto
next
  case (Cons a evs)
  from Cons.prems obtain st1 where s1: "activityStep parse (Some s, sessions) a = Inr st1"
    and s2: "userLoop parse st1 evs = Inr st"
    by (auto split: sum.splits)
  from s1 consider
      (stays) s1' where "st1 = (Some s1', sessions)" "GoogleID s1' = GoogleID s" "Name s1' = Name s"
    | (closed) s1' where "st1 = (None, sessions @ [s1'])" "GoogleID s1' = GoogleID s" "Name s1' = Name s"
    by (auto split: if_splits option.splits)
  then show ?case
  proof cases
    case stays
    then show ?thesis using Cons.IH [of s1'] s2 by auto
  next
    case closed
    then obtain rest where "closeTrailing st = (sessions @ [s1']) @ rest"
      using userLoop_None_prefix s2 by blast
    then show ?thesis using closed by auto
  qed
qed

text \<open>
  C10: when an Active row \<open>a\<close> (state 2) arrives while no session is open, the session it
  opens is the next one emitted for the partition, by a closing Inactive row or as the
  trailing session, and it carries the user id and display name of \<open>a\<close> whatever user
  ids the later rows \<open>evs\<close> of the partition carry. As partitions are formed by display
  name alone, time recorded under another user id can so be attributed to the user id of
  \<open>a\<close>: the instance below has rows of \<open>u1\<close> and \<open>u2\<close> under one display name and
  yields a single session of \<open>u1\<close> covering both.
\<close>

theorem opener_identity:
  assumes "Active a = 2"
    and "userLoop parse (None, sessions) (a # evs) = Inr st"
  shows "\<exists>s' rest. closeTrailing st = sessions @ s' # rest
           \<and> GoogleID s' = UserID a \<and> Name s' = DisplayName a"
proof -
  from assms obtain s0 where "activityStep parse (None, sessions) a = Inr (Some s0, sessions)"
    and "GoogleID s0 = UserID a" "Name s0 = DisplayName a"
    and "userLoop parse (Some s0, sessions) evs = Inr st"
    by (auto split: sum.splits option.splits)
  then show ?thesis using userLoop_keeps_identity [of parse s0 sessions evs st] by auto
qed

theorem opener_identity_witness:
  "userLoop sampleParse (None, [])
     [activity ''alice'' ''u1'' ''2024-08-06T02:00:00Z'' ''2024-08-06T03:00:00Z'' 2,
      activity ''alice'' ''u2'' ''2024-08-06T04:00:00Z'' ''2024-08-06T04:00:00Z'' 2,
      activity ''alice'' ''u2'' ''2024-08-06T06:00:00Z'' ''2024-08-06T06:00:00Z'' 0]
     = Inr (None, [\<lparr>Name = ''alice'', GoogleID = ''u1'',
         StartTime = utc 1722909600, EndTime = utc 1722924000\<rparr>])
   \<and> processActivities sampleParse [''alice'']
     [activity ''alice'' ''u1'' ''2024-08-06T02:00:00Z'' ''2024-08-06T03:00:00Z'' 2,
      activity ''alice'' ''u2'' ''2024-08-06T04:00:00Z'' ''2024-08-06T04:00:00Z'' 2,
      activity ''alice'' ''u2'' ''2024-08-06T06:00:00Z'' ''2024-08-06T06:00:00Z'' 0]
     = [\<lparr>Name = ''alice'', GoogleID = ''u1'',
         StartTime = utc 1722909600, EndTime = utc 1722924000\<rparr>]
   \<and> (\<exists>s' rest. closeTrailing (None, [\<lparr>Name = ''alice'', GoogleID = ''u1'',
         StartTime = utc 1722909600, EndTime = utc 1722924000\<rparr>]) = [] @ s' # rest
           \<and> GoogleID s' = ''u1'' \<and> Name s' = ''alice'')"
proof -
  let ?a = "activity ''alice'' ''u1'' ''2024-08-06T02:00:00Z'' ''2024-08-06T03:00:00Z'' 2"
  let ?b = "activity ''alice'' ''u2'' ''2024-08-06T04:00:00Z'' ''2024-08-06T04:00:00Z'' 2"
  let ?c = "activity ''alice'' ''u2'' ''2024-08-06T06:00:00Z'' ''2024-08-06T06:00:00Z'' 0"
  let ?s = "\<lparr>Name = ''alice'', GoogleID = ''u1'',
         StartTime = utc 1722909600, EndTime = utc 1722924000\<rparr>"
  have a: "Active ?a = 2" by (simp add: activity_def)
  have l: "userLoop sampleParse (None, []) (?a # [?b, ?c]) = Inr (None, [?s])"
    by (simp add: activity_def sampleParse_simps minTime_def maxTime_def Before_def After_def
          utc_def Second_def)
  have p: "processActivities sampleParse [''alice''] [?a, ?b, ?c] = [?s]"
    by (simp add: processActivities_def processActivitiesE_def activity_def sampleParse_simps
          minTime_def maxTime_def Before_def After_def utc_def Second_def)
  show ?thesis
    using l p opener_identity [OF a l] by (simp add: activity_def)
qed

section \<open>C4: the filter drops exactly the strictly contained sessions\<close>

lemma sessionLess_asym: "sessionLess a b \<Longrightarrow> \<not> sessionLess b a"
  by (auto simp: sessionLess_def Before_def split: if_splits)

lemma sessionLess_trans: "sessionLess a b \<Longrightarrow> sessionLess b c \<Longrightarrow> sessionLess a c"
  by (auto simp: sessionLess_def Before_def split: if_splits)

lemma mset_insertSession: "mset (insertSession x ys) = add_mset x (mset ys)"
  by (induction ys) auto

lemma set_insertSession: "set (insertSession x ys) = insert x (set ys)"
  by (induction ys) auto

lemma sessionLess_cotrans: "sessionLess a c \<Longrightarrow> sessionLess a b \<or> sessionLess b c"
  by (auto simp: sessionLess_def Before_def split: if_splits)

lemma sorted_insertSession:
  "sorted_wrt (\<lambda>a b. \<not> sessionLess b a) ys \<Longrightarrow>
     sorted_wrt (\<lambda>a b. \<not> sessionLess b a) (insertSession x ys)"
proof (induction ys)
  case Nil
  then show ?case by simp
next
  case (Cons y ys)
  show ?case
  proof (cases "sessionLess y x")
    case True
    then show ?thesis
      using Cons sessionLess_asym by (auto simp: set_insertSession)
  next
    case False
    have "\<forall>z \<in> set (y # ys). \<not> sessionLess z x"
    proof
      fix z assume z: "z \<in> set (y # ys)"
      show "\<not> sessionLess z x"
      proof (cases "z = y")
        case True
        then show ?thesis using False by simp
      next
        case neq: False
        then have "z \<in> set ys" using z by simp
        then have "\<not> sessionLess z y" using Cons.prems by simp
        then show ?thesis using False sessionLess_cotrans by blast
      qed
    qed
    then show ?thesis using False Cons.prems by simp
  qed
qed

lemma sortSessions_result: "sortSliceResult sessions (sortSessions sessions)"
  unfolding sortSliceResult_def sortSessions_def
  by (induction sessions) (simp_all add: mset_insertSession sorted_insertSession)

lemma isSubSession_iff: "isSubSession ts current = strictlyContained ts current"
  by (induction ts) (auto simp: strictlyContained_def)

lemma sorted_contained_before:
  assumes "sorted_wrt (\<lambda>a b. \<not> sessionLess b a) ys" and "i < length ys"
  shows "strictlyContained (take i ys) (ys ! i) = strictlyContained ys (ys ! i)"
proof
  assume "strictlyContained (take i ys) (ys ! i)"
  then show "strictlyContained ys (ys ! i)"
    by (auto simp: strictlyContained_def dest: in_set_takeD)
next
  assume "strictlyContained ys (ys ! i)"
  then obtain t where t: "t \<in> set ys" "Name t = Name (ys ! i)"
    "Before (StartTime t) (StartTime (ys ! i))" "After (EndTime t) (EndTime (ys ! i))"
    by (auto simp: strictlyContained_def)
  then obtain k where k: "k < length ys" "ys ! k = t" by (auto simp: in_set_conv_nth)
  have less: "sessionLess (ys ! k) (ys ! i)" using t k by (simp add: sessionLess_def)
  have "k < i"
  proof (rule ccontr)
    assume "\<not> k < i"
    then consider "k = i" | "i < k" by linarith
    then show False
    proof cases
      case 1
      then show ?thesis using less sessionLess_asym by blast
    next
      case 2
      then have "\<not> sessionLess (ys ! k) (ys ! i)"
        using assms(1) k(1) by (simp add: sorted_wrt_iff_nth_less)
      then show ?thesis using less by simp
    qed
  qed
  then have "t \<in> set (take i ys)" using k by (auto simp: in_set_conv_nth)
  then show "strictlyContained (take i ys) (ys ! i)"
    using t by (auto simp: strictlyContained_def)
qed

lemma filterFrom_filter:
  "sorted_wrt (\<lambda>a b. \<not> sessionLess b a) ys \<Longrightarrow>
     filterFrom ys i filtered
       = filtered @ filter (\<lambda>s. \<not> strictlyContained ys s) (drop i ys)"
proof (induction ys i filtered rule: filterFrom.induct)
  case (1 sessions i filtered)
  show ?case
  proof (cases "i < length sessions")
    case True
    have d: "drop i sessions = sessions ! i # drop (i + 1) sessions"
      using True by (simp add: Cons_nth_drop_Suc)
    have c: "isSubSession (take i sessions) (sessions ! i)
               = strictlyContained sessions (sessions ! i)"
      using sorted_contained_before [OF "1.prems" True] by (simp add: isSubSession_iff)
    have "filterFrom sessions i filtered
            = filterFrom sessions (i + 1)
                (if \<not> isSubSession (take i sessions) (sessions ! i)
                 then filtered @ [sessions ! i] else filtered)"
      using True by (simp add: filterFrom.simps [of sessions i filtered])
    also have "\<dots> = (if \<not> isSubSession (take i sessions) (sessions ! i)
                 then filtered @ [sessions ! i] else filtered)
              @ filter (\<lambda>s. \<not> strictlyContained sessions s) (drop (i + 1) sessions)"
      by (rule "1.IH" [OF True "1.prems"])
    also have "\<dots> = filtered @ filter (\<lambda>s. \<not> strictlyContained sessions s) (drop i sessions)"
      unfolding d c by simp
    finally show ?thesis .
  next
    case False
    then show ?thesis by (simp add: filterFrom.simps [of sessions i filtered])
  qed
qed

lemma strictlyContained_cong:
  "set xs = set ys \<Longrightarrow> strictlyContained xs s = strictlyContained ys s"
  by (simp add: strictlyContained_def)

lemma FilterSessions_filter:
  "FilterSessions sessions
     = filter (\<lambda>s. \<not> strictlyContained sessions s) (sortSessions sessions)"
proof -
  have r: "sortSliceResult sessions (sortSessions sessions)" by (rule sortSessions_result)
  then have "set (sortSessions sessions) = set sessions"
    unfolding sortSliceResult_def using mset_eq_setD by blast
  then have "strictlyContained (sortSessions sessions) = strictlyContained sessions"
    using strictlyContained_cong by blast
  then show ?thesis
    using r filterFrom_filter [of "sortSessions sessions" 0 "[]"]
    by (simp add: FilterSessions_def sortSliceResult_def)
qed

text \<open>
  C4: whatever order \<^verbatim>\<open>sort.Slice\<close> leaves the sessions in, the filter returns the
  sorted sessions without those strictly contained in a session of the input with the
  same name, and only without those: a session is in the output exactly when it is in
  the input and no session of the same name starts before it and ends after it. Sessions
  that overlap without strict containment are all kept, each as often as it occurs.
\<close>

theorem filter_drops_contained:
  assumes "sortSliceResult sessions out"
  shows "filterFrom out 0 [] = filter (\<lambda>s. \<not> strictlyContained sessions s) out
     \<and> mset (filterFrom out 0 [])
         = filter_mset (\<lambda>s. \<not> strictlyContained sessions s) (mset sessions)
     \<and> set (filterFrom out 0 []) = {s \<in> set sessions. \<not> strictlyContained sessions s}"
proof -
  from assms have m: "mset out = mset sessions"
    and s: "sorted_wrt (\<lambda>a b. \<not> sessionLess b a) out"
    by (simp_all add: sortSliceResult_def)
  from m have se: "set out = set sessions" by (rule mset_eq_setD)
  then have c: "strictlyContained out = strictlyContained sessions"
    using strictlyContained_cong by blast
  have l: "filterFrom out 0 [] = filter (\<lambda>s. \<not> strictlyContained sessions s) out"
    using filterFrom_filter [OF s, of 0 "[]"] c by simp
  have "mset (filter (\<lambda>s. \<not> strictlyContained sessions s) out)
          = filter_mset (\<lambda>s. \<not> strictlyContained sessions s) (mset sessions)"
    using m by (simp add: mset_filter)
  then show ?thesis using l se by auto
qed


theorem filter_drops_contained_witness:
  "sortSliceResult
     [\<lparr>Name = ''alice'', GoogleID = ''u1'', StartTime = utc 1722913200, EndTime = utc 1722916800\<rparr>,
      \<lparr>Name = ''bob'', GoogleID = ''u2'', StartTime = utc 1722913200, EndTime = utc 1722916800\<rparr>,
      \<lparr>Name = ''alice'', GoogleID = ''u1'', StartTime = utc 1722913200, EndTime = utc 1722924000\<rparr>,
      \<lparr>Name = ''alice'', GoogleID = ''u1'', StartTime = utc 1722909600, EndTime = utc 1722924000\<rparr>]
     [\<lparr>Name = ''alice'', GoogleID = ''u1'', StartTime = utc 1722909600, EndTime = utc 1722924000\<rparr>,
      \<lparr>Name = ''alice'', GoogleID = ''u1'', StartTime = utc 1722913200, EndTime = utc 1722924000\<rparr>,
      \<lparr>Name = ''alice'', GoogleID = ''u1'', StartTime = utc 1722913200, EndTime = utc 1722916800\<rparr>,
      \<lparr>Name = ''bob'', GoogleID = ''u2'', StartTime = utc 1722913200, EndTime = utc 1722916800\<rparr>]
   \<and> FilterSessions
     [\<lparr>Name = ''alice'', GoogleID = ''u1'', StartTime = utc 1722913200, EndTime = utc 1722916800\<rparr>,
      \<lparr>Name = ''bob'', GoogleID = ''u2'', StartTime = utc 1722913200, EndTime = utc 1722916800\<rparr>,
      \<lparr>Name = ''alice'', GoogleID = ''u1'', StartTime = utc 1722913200, EndTime = utc 1722924000\<rparr>,
      \<lparr>Name = ''alice'', GoogleID = ''u1'', StartTime = utc 1722909600, EndTime = utc 1722924000\<rparr>]
     = [\<lparr>Name = ''alice'', GoogleID = ''u1'', StartTime = utc 1722909600, EndTime = utc 1722924000\<rparr>,
      \<lparr>Name = ''alice'', GoogleID = ''u1'', StartTime = utc 1722913200, EndTime = utc 1722924000\<rparr>,
      \<lparr>Name = ''bob'', GoogleID = ''u2'', StartTime = utc 1722913200, EndTime = utc 1722916800\<rparr>]"
proof -
  let ?b = "\<lparr>Name = ''alice'', GoogleID = ''u1'', StartTime = utc 1722913200, EndTime = utc 1722916800\<rparr>"
  let ?d = "\<lparr>Name = ''bob'', GoogleID = ''u2'', StartTime = utc 1722913200, EndTime = utc 1722916800\<rparr>"
  let ?c = "\<lparr>Name = ''alice'', GoogleID = ''u1'', StartTime = utc 1722913200, EndTime = utc 1722924000\<rparr>"
  let ?a = "\<lparr>Name = ''alice'', GoogleID = ''u1'', StartTime = utc 1722909600, EndTime = utc 1722924000\<rparr>"
  have srt: "sortSessions [?b, ?d, ?c, ?a] = [?a, ?b, ?c, ?d]"
    by (simp add: sortSessions_def sessionLess_def Before_def utc_def Second_def)
  have r: "sortSliceResult [?b, ?d, ?c, ?a] [?a, ?b, ?c, ?d]"
    using sortSessions_result [of "[?b, ?d, ?c, ?a]"] unfolding srt .
  have r': "sortSliceResult [?b, ?d, ?c, ?a] [?a, ?c, ?b, ?d]"
    by (simp add: sortSliceResult_def sessionLess_def Before_def utc_def Second_def)
  have keep: "filter (\<lambda>s. \<not> strictlyContained [?b, ?d, ?c, ?a] s) [?a, ?b, ?c, ?d] = [?a, ?c, ?d]"
    by (simp add: strictlyContained_def Before_def After_def utc_def Second_def)
  have "filterFrom [?a, ?b, ?c, ?d] 0 [] = [?a, ?c, ?d]"
    using filter_drops_contained [OF r] keep by simp
  then show ?thesis using r' srt by (simp add: FilterSessions_def)
qed

section \<open>Facts about the aggregation loop\<close>

lemma overlap_bounds: "0 \<le> overlap date s \<and> overlap date s \<le> 2 * Hour"
  by (auto simp: overlap_def Hour_def Second_def)

lemma contribution_nonneg: "0 \<le> contribution date s"
  using overlap_bounds [of date s] by (simp add: contribution_def)

lemma Sub_in_range:
  assumes "0 \<le> unixNano t - unixNano u" and "unixNano t - unixNano u \<le> 2 * Hour"
  shows "Sub t u = word_of_int (unixNano t - unixNano u)"
  using assms by (simp add: Sub_def Let_def minDuration_def maxDuration_def Hour_def Second_def)

lemma sessionStep_onTargetDay:
  "sessionStep date startOfDay start3h end5h m s =
     (if onTargetDay date s then
        (let effectiveStart = (if Before (StartTime s) start3h then start3h else StartTime s);
             effectiveEnd = (if After (EndTime s) end5h then end5h else EndTime s)
         in if Before effectiveStart effectiveEnd then
              (case m (userKey s) of
                 Some r \<Rightarrow>
                   m(userKey s \<mapsto> r\<lparr>TotalTime := TotalTime r + Sub effectiveEnd effectiveStart\<rparr>)
               | None \<Rightarrow>
                   m(userKey s \<mapsto>
                     \<lparr>stName = Name s, stGoogleID = GoogleID s,
                      TotalTime = Sub effectiveEnd effectiveStart, Date = startOfDay\<rparr>))
            else m)
      else m)"
  unfolding sessionStep_def onTargetDay_def userKey_def Let_def by (rule refl)

text \<open>The loop body, read through the notions above.\<close>

lemma sessionStep_eq:
  "sessionStep date (Truncate date (24 * Hour)) (Add (Truncate date (24 * Hour)) (3 * Hour))
      (Add (Truncate date (24 * Hour)) (5 * Hour)) m s =
     (if 0 < contribution date s then
        m(userKey s \<mapsto>
          (case m (userKey s) of
             Some r \<Rightarrow> r\<lparr>TotalTime := TotalTime r + word_of_int (contribution date s)\<rparr>
           | None \<Rightarrow> \<lparr>stName = Name s, stGoogleID = GoogleID s,
                       TotalTime = word_of_int (contribution date s),
                       Date = Truncate date (24 * Hour)\<rparr>))
      else m)"
proof (cases "onTargetDay date s")
  case False
  then show ?thesis by (simp add: sessionStep_onTargetDay contribution_def)
next
  case True
  define m3 where "m3 = Add (Truncate date (24 * Hour)) (3 * Hour)"
  define m5 where "m5 = Add (Truncate date (24 * Hour)) (5 * Hour)"
  define es where "es = (if Before (StartTime s) m3 then m3 else StartTime s)"
  define ee where "ee = (if After (EndTime s) m5 then m5 else EndTime s)"
  have es: "unixNano es = max (unixNano (StartTime s)) (midnight date + 3 * Hour)"
    by (simp add: es_def m3_def Before_def Add_def midnight_def max_def)
  have ee: "unixNano ee = min (unixNano (EndTime s)) (midnight date + 5 * Hour)"
    by (simp add: ee_def m5_def After_def Add_def midnight_def min_def)
  have ov: "overlap date s = max 0 (unixNano ee - unixNano es)"
    unfolding es ee by (simp add: overlap_def)
  have bf: "Before es ee = (0 < overlap date s)"
    unfolding ov Before_def by linarith
  have step: "sessionStep date (Truncate date (24 * Hour)) m3 m5 m s =
     (if Before es ee then
        (case m (userKey s) of
           Some r \<Rightarrow> m(userKey s \<mapsto> r\<lparr>TotalTime := TotalTime r + Sub ee es\<rparr>)
         | None \<Rightarrow>
             m(userKey s \<mapsto>
               \<lparr>stName = Name s, stGoogleID = GoogleID s,
                TotalTime = Sub ee es, Date = Truncate date (24 * Hour)\<rparr>))
      else m)"
    unfolding sessionStep_onTargetDay es_def ee_def Let_def using True by simp
  show ?thesis
  proof (cases "0 < overlap date s")
    case False
    then show ?thesis
      using True bf step by (simp add: contribution_def m3_def m5_def)
  next
    case pos: True
    then have d: "unixNano ee - unixNano es = overlap date s" using ov by simp
    have sub: "Sub ee es = word_of_int (overlap date s)"
      using Sub_in_range [of ee es] overlap_bounds [of date s] unfolding d by simp
    have c: "contribution date s = overlap date s"
      using True by (simp add: contribution_def)
    show ?thesis
      unfolding m3_def [symmetric] m5_def [symmetric] step c sub
      using pos bf by (cases "m (userKey s)") simp_all
  qed
qed


lemma CalculateTotalTimeForDate_aggregateFrom:
  "CalculateTotalTimeForDate sessions date = aggregateFrom date Map.empty sessions"
  by (simp add: CalculateTotalTimeForDate_def aggregateFrom_def Let_def)

lemma aggregateFrom_Nil: "aggregateFrom date m [] = m"
  by (simp add: aggregateFrom_def)

lemma aggregateFrom_Cons:
  "aggregateFrom date m (s # rest) =
     aggregateFrom date
       (if 0 < contribution date s then
          m(userKey s \<mapsto>
            (case m (userKey s) of
               Some r \<Rightarrow> r\<lparr>TotalTime := TotalTime r + word_of_int (contribution date s)\<rparr>
             | None \<Rightarrow> \<lparr>stName = Name s, stGoogleID = GoogleID s,
                         TotalTime = word_of_int (contribution date s),
                         Date = Truncate date (24 * Hour)\<rparr>))
        else m) rest"
  unfolding aggregateFrom_def sessionsLoop.simps sessionStep_eq by (rule refl)

lemma aggregateFrom_append:
  "aggregateFrom date m (xs @ ys) = aggregateFrom date (aggregateFrom date m xs) ys"
  unfolding aggregateFrom_def by (induction xs arbitrary: m) simp_all

lemma keyTotal_Cons:
  "keyTotal date k (s # rest) =
     (if userKey s = k then contribution date s else 0) + keyTotal date k rest"
  by (simp add: keyTotal_def)

lemma keyTotal_nonneg: "0 \<le> keyTotal date k sessions"
  unfolding keyTotal_def by (rule sum_list_nonneg) (auto simp: contribution_nonneg)

lemma aggregateFrom_total:
  "map_option TotalTime (aggregateFrom date m sessions k) =
     (case m k of
        None \<Rightarrow> (if keyTotal date k sessions = 0 then None
                  else Some (word_of_int (keyTotal date k sessions)))
      | Some r \<Rightarrow> Some (TotalTime r + word_of_int (keyTotal date k sessions)))"
proof (induction sessions arbitrary: m)
  case Nil
  show ?case by (cases "m k") (simp_all add: aggregateFrom_Nil keyTotal_def)
next
  case (Cons s rest)
  have t: "0 \<le> keyTotal date k rest" by (rule keyTotal_nonneg)
  have c: "0 \<le> contribution date s" by (rule contribution_nonneg)
  show ?case
  proof (cases "userKey s = k \<and> 0 < contribution date s")
    case True
    then show ?thesis
      using t by (cases "m k") (simp_all add: aggregateFrom_Cons Cons.IH keyTotal_Cons)
  next
    case False
    then have "keyTotal date k (s # rest) = keyTotal date k rest"
      using c by (auto simp: keyTotal_Cons)
    then show ?thesis
      using False by (cases "m k") (auto simp: aggregateFrom_Cons Cons.IH)
  qed
qed

lemma recordIdentity_simps:
  "recordIdentity (r\<lparr>TotalTime := x\<rparr>) = recordIdentity r"
  "recordIdentity \<lparr>stName = Name s, stGoogleID = GoogleID s, TotalTime = y,
      Date = Truncate date (24 * Hour)\<rparr> = sessionIdentity date s"
  by (simp_all add: recordIdentity_def sessionIdentity_def)

lemma aggregateFrom_identity:
  "map_option recordIdentity (aggregateFrom date m sessions k) =
     (case m k of
        Some r \<Rightarrow> Some (recordIdentity r)
      | None \<Rightarrow> map_option (sessionIdentity date)
                  (find (\<lambda>s. userKey s = k \<and> 0 < contribution date s) sessions))"
proof (induction sessions arbitrary: m)
  case Nil
  show ?case by (cases "m k") (simp_all add: aggregateFrom_Nil)
next
  case (Cons s rest)
  show ?case
  proof (cases "userKey s = k \<and> 0 < contribution date s")
    case True
    then show ?thesis
      by (cases "m k") (simp_all add: aggregateFrom_Cons Cons.IH recordIdentity_simps)
  next
    case False
    then show ?thesis
      by (cases "m k") (auto simp: aggregateFrom_Cons Cons.IH)
  qed
qed

section \<open>Calendar days of the concrete inputs\<close>

lemma day_19941: "civilDay t = 19941 \<Longrightarrow> Year t = 2024 \<and> YearDay t = 219"
  by (simp add: Year_def YearDay_def yearOfDay_def yearDayOfDay_def marchDay_def
        yearOfEra_def dayOfEra_def isLeap_def Let_def)

lemma day_19940: "civilDay t = 19940 \<Longrightarrow> Year t = 2024 \<and> YearDay t = 218"
  by (simp add: Year_def YearDay_def yearOfDay_def yearDayOfDay_def marchDay_def
        yearOfEra_def dayOfEra_def isLeap_def Let_def)

lemma civilDay_zoned: "civilDay (zoned secs off) = (secs + off) div 86400"
  by (simp add: civilDay_def zoneOffset_def zoned_def Second_def)

lemma civilDay_utc: "civilDay (utc secs) = secs div 86400"
  by (simp add: civilDay_def zoneOffset_def utc_def Second_def)

lemma inUTC_simps: "inUTC (zoned secs off) = utc secs" "inUTC (utc secs) = utc secs"
  by (simp_all add: inUTC_def zoned_def utc_def)

lemma unixNano_simps:
  "unixNano (zoned secs off) = secs * 1000000000" "unixNano (utc secs) = secs * 1000000000"
  by (simp_all add: zoned_def utc_def Second_def)

lemma Truncate_sample: "Truncate (utc 1722902400) (24 * Hour) = utc 1722902400"
  by (simp add: Truncate_def utc_def zeroTimeOffset_def Hour_def Second_def)

lemma overlap_sample:
  "overlap (utc 1722902400) s
   = max 0 (min (unixNano (EndTime s)) 1722920400000000000
            - max (unixNano (StartTime s)) 1722913200000000000)"
  unfolding overlap_def midnight_def Truncate_sample
  by (simp add: utc_def Hour_def Second_def)

lemma CalculateTotalTimeForDate_total:
  "map_option TotalTime (CalculateTotalTimeForDate sessions date k) =
     (if keyTotal date k sessions = 0 then None
      else Some (word_of_int (keyTotal date k sessions)))"
  using aggregateFrom_total [of date Map.empty sessions k]
  by (simp add: CalculateTotalTimeForDate_aggregateFrom)

lemma recordedTotal_keyTotal:
  "recordedTotal (CalculateTotalTimeForDate sessions date) k
     = word_of_int (keyTotal date k sessions)"
  using CalculateTotalTimeForDate_total [of sessions date k]
  by (cases "CalculateTotalTimeForDate sessions date k")
     (auto simp: recordedTotal_def split: if_splits)

lemma keyTotal_insert:
  "keyTotal date k (pre @ s # post) =
     keyTotal date k (pre @ post) + (if userKey s = k then contribution date s else 0)"
  by (simp add: keyTotal_def)

section \<open>C3: one record per key\<close>

text \<open>
  C3, as stated, fails: the map is keyed by the concatenation of name and user id, and two
  different pairs can have the same concatenation. The sessions of name \<open>ab\<close> with user
  id \<open>c\<close> and of name \<open>a\<close> with user id \<open>bc\<close>, each one hour inside the window of
  2024-08-06, are accumulated into the one record under \<open>abc\<close>, which carries the name and
  user id of the first and the sum of both hours.
\<close>

theorem key_collision_counterexample:
  "(''ab'', ''c'') \<noteq> (''a'', ''bc'')
   \<and> contribution (utc 1722902400)
       \<lparr>Name = ''ab'', GoogleID = ''c'', StartTime = utc 1722913200, EndTime = utc 1722916800\<rparr>
     = 3600000000000
   \<and> contribution (utc 1722902400)
       \<lparr>Name = ''a'', GoogleID = ''bc'', StartTime = utc 1722913200, EndTime = utc 1722916800\<rparr>
     = 3600000000000
   \<and> CalculateTotalTimeForDate
       [\<lparr>Name = ''ab'', GoogleID = ''c'', StartTime = utc 1722913200, EndTime = utc 1722916800\<rparr>,
        \<lparr>Name = ''a'', GoogleID = ''bc'', StartTime = utc 1722913200, EndTime = utc 1722916800\<rparr>]
       (utc 1722902400)
     = [''abc'' \<mapsto> \<lparr>stName = ''ab'', stGoogleID = ''c'', TotalTime = 7200000000000,
                       Date = utc 1722902400\<rparr>]"
proof -
  have c1: "contribution (utc 1722902400)
       \<lparr>Name = ''ab'', GoogleID = ''c'', StartTime = utc 1722913200, EndTime = utc 1722916800\<rparr>
     = 3600000000000"
    by (simp add: contribution_def onTargetDay_def overlap_sample civilDay_utc day_19941
          unixNano_simps)
  have c2: "contribution (utc 1722902400)
       \<lparr>Name = ''a'', GoogleID = ''bc'', StartTime = utc 1722913200, EndTime = utc 1722916800\<rparr>
     = 3600000000000"
    by (simp add: contribution_def onTargetDay_def overlap_sample civilDay_utc day_19941
          unixNano_simps)
  show ?thesis
    by (simp add: CalculateTotalTimeForDate_aggregateFrom aggregateFrom_Cons aggregateFrom_Nil
          c1 c2 userKey_def Truncate_sample)
qed

text \<open>
  C3, amended: the output holds exactly one record for each distinct concatenation of
  name and user id among the sessions that start on the calendar day of the target date
  and overlap the window; pairs with the same concatenation share one record. The record
  carries the name and user id of the first such session with that concatenation, the
  truncated target date, and the sum (in 64-bit arithmetic) of the overlaps of all of them.
\<close>

theorem one_record_per_key:
  "dom (CalculateTotalTimeForDate sessions date)
     = userKey ` {s \<in> set sessions. 0 < contribution date s}
   \<and> map_option recordIdentity (CalculateTotalTimeForDate sessions date k)
     = map_option (sessionIdentity date)
         (find (\<lambda>s. userKey s = k \<and> 0 < contribution date s) sessions)
   \<and> recordedTotal (CalculateTotalTimeForDate sessions date) k
     = word_of_int (keyTotal date k sessions)"
proof -
  have id: "map_option recordIdentity (CalculateTotalTimeForDate sessions date k)
     = map_option (sessionIdentity date)
         (find (\<lambda>s. userKey s = k \<and> 0 < contribution date s) sessions)" for k
    using aggregateFrom_identity [of date Map.empty sessions k]
    by (simp add: CalculateTotalTimeForDate_aggregateFrom)
  have "(k \<in> dom (CalculateTotalTimeForDate sessions date))
          = (k \<in> userKey ` {s \<in> set sessions. 0 < contribution date s})" for k
  proof -
    have "(k \<in> dom (CalculateTotalTimeForDate sessions date))
            = (map_option recordIdentity (CalculateTotalTimeForDate sessions date k) \<noteq> None)"
      by (auto simp: dom_def)
    also have "\<dots> = (find (\<lambda>s. userKey s = k \<and> 0 < contribution date s) sessions \<noteq> None)"
      unfolding id by simp
    also have "\<dots> = (k \<in> userKey ` {s \<in> set sessions. 0 < contribution date s})"
      by (auto simp: find_None_iff)
    finally show ?thesis .
  qed
  then have "dom (CalculateTotalTimeForDate sessions date)
     = userKey ` {s \<in> set sessions. 0 < contribution date s}"
    by blast
  then show ?thesis using id recordedTotal_keyTotal by blast
qed

section \<open>C5: what a session adds\<close>

text \<open>For time values in UTC the day compared is the UTC calendar day.\<close>

lemma civilDay_inUTC: "zoneOffset t = 0 \<Longrightarrow> civilDay (inUTC t) = civilDay t"
  by (simp add: civilDay_def zoneOffset_def inUTC_def)

lemma onTargetDay_UTC:
  assumes "zoneOffset (StartTime s) = 0" and "zoneOffset date = 0"
  shows "onTargetDay date s = onTargetDayUTC date s"
  using assms
  by (simp add: onTargetDay_def onTargetDayUTC_def Year_def YearDay_def civilDay_inUTC)

text \<open>
  C5, as stated, fails: \<^verbatim>\<open>Year\<close> and \<^verbatim>\<open>YearDay\<close> read the calendar in the location of
  the time value, not in UTC. A session from 03:00 to 04:00 UTC of 2024-08-06 whose
  times carry the zone -07:00 (read from \<open>2024-08-05T20:00:00-07:00\<close>) starts on the
  target day in UTC and lies inside the window, yet nothing is recorded for it.
\<close>

theorem utc_day_not_counted_counterexample:
  "onTargetDayUTC (utc 1722902400)
     \<lparr>Name = ''alice'', GoogleID = ''u1'',
      StartTime = zoned 1722913200 (- 25200), EndTime = zoned 1722916800 (- 25200)\<rparr>
   \<and> overlap (utc 1722902400)
     \<lparr>Name = ''alice'', GoogleID = ''u1'',
      StartTime = zoned 1722913200 (- 25200), EndTime = zoned 1722916800 (- 25200)\<rparr>
     = 3600000000000
   \<and> CalculateTotalTimeForDate
     [\<lparr>Name = ''alice'', GoogleID = ''u1'',
       StartTime = zoned 1722913200 (- 25200), EndTime = zoned 1722916800 (- 25200)\<rparr>]
     (utc 1722902400) = Map.empty"
proof -
  let ?s = "\<lparr>Name = ''alice'', GoogleID = ''u1'',
      StartTime = zoned 1722913200 (- 25200), EndTime = zoned 1722916800 (- 25200)\<rparr>"
  have u: "onTargetDayUTC (utc 1722902400) ?s"
    by (simp add: onTargetDayUTC_def inUTC_simps civilDay_utc day_19941)
  have o: "overlap (utc 1722902400) ?s = 3600000000000"
    by (simp add: overlap_sample unixNano_simps)
  have "\<not> onTargetDay (utc 1722902400) ?s"
    by (simp add: onTargetDay_def civilDay_utc civilDay_zoned day_19941 day_19940)
  then have "contribution (utc 1722902400) ?s = 0" by (simp add: contribution_def)
  then have "CalculateTotalTimeForDate [?s] (utc 1722902400) = Map.empty"
    by (simp add: CalculateTotalTimeForDate_aggregateFrom aggregateFrom_Cons aggregateFrom_Nil)
  then show ?thesis using u o by simp
qed

text \<open>
  C5, amended: a session whose start falls on the calendar day of the target date, year
  and day of the year being read in the location of each time value (the UTC calendar day
  when both are UTC times), adds
  \<open>max(0, min(endTime, midnight + 5h) - max(startTime, midnight + 3h))\<close> to the total
  recorded under its key, in 64-bit arithmetic, and nothing to the total of any other key;
  \<open>midnight\<close> is the target date rounded down to a multiple of 24 hours. The amount is
  between 0 and 2 hours. The session from 02:00 to 06:00 UTC of 2024-08-06, evaluated for
  that date, contributes exactly 2 hours.
\<close>

theorem session_adds_overlap:
  assumes "onTargetDay date s"
  shows "recordedTotal (CalculateTotalTimeForDate (pre @ s # post) date) k
     = recordedTotal (CalculateTotalTimeForDate (pre @ post) date) k
       + (if k = userKey s then word_of_int (overlap date s) else 0)
   \<and> 0 \<le> overlap date s \<and> overlap date s \<le> 2 * Hour"
  using assms overlap_bounds [of date s]
  by (simp add: recordedTotal_keyTotal keyTotal_insert contribution_def)

theorem session_adds_overlap_witness:
  "onTargetDay (utc 1722902400)
     \<lparr>Name = ''alice'', GoogleID = ''u1'', StartTime = utc 1722909600, EndTime = utc 1722924000\<rparr>
   \<and> overlap (utc 1722902400)
     \<lparr>Name = ''alice'', GoogleID = ''u1'', StartTime = utc 1722909600, EndTime = utc 1722924000\<rparr>
     = 2 * Hour
   \<and> recordedTotal (CalculateTotalTimeForDate
       [\<lparr>Name = ''alice'', GoogleID = ''u1'', StartTime = utc 1722909600, EndTime = utc 1722924000\<rparr>]
       (utc 1722902400)) ''aliceu1''
     = word_of_int (2 * Hour)
   \<and> CalculateTotalTimeForDate
       [\<lparr>Name = ''alice'', GoogleID = ''u1'', StartTime = utc 1722909600, EndTime = utc 1722924000\<rparr>]
       (utc 1722902400)
     = [''aliceu1'' \<mapsto> \<lparr>stName = ''alice'', stGoogleID = ''u1'', TotalTime = 7200000000000,
                          Date = utc 1722902400\<rparr>]"
proof -
  let ?s = "\<lparr>Name = ''alice'', GoogleID = ''u1'',
      StartTime = utc 1722909600, EndTime = utc 1722924000\<rparr>"
  have d: "onTargetDay (utc 1722902400) ?s"
    by (simp add: onTargetDay_def civilDay_utc day_19941)
  have o: "overlap (utc 1722902400) ?s = 2 * Hour"
    by (simp add: overlap_sample unixNano_simps Hour_def Second_def)
  have e: "CalculateTotalTimeForDate [] (utc 1722902400) = Map.empty"
    by (simp add: CalculateTotalTimeForDate_aggregateFrom aggregateFrom_Nil)
  have k: "userKey ?s = ''aliceu1''" by (simp add: userKey_def)
  have t: "recordedTotal (CalculateTotalTimeForDate ([] @ ?s # []) (utc 1722902400)) ''aliceu1''
     = recordedTotal (CalculateTotalTimeForDate ([] @ []) (utc 1722902400)) ''aliceu1''
       + (if ''aliceu1'' = userKey ?s then word_of_int (overlap (utc 1722902400) ?s) else 0)"
    using session_adds_overlap [OF d, of "[]" "[]" "''aliceu1''"] by blast
  have c: "contribution (utc 1722902400) ?s = 7200000000000"
    using d o by (simp add: contribution_def Hour_def Second_def)
  have r: "CalculateTotalTimeForDate [?s] (utc 1722902400)
     = [''aliceu1'' \<mapsto> \<lparr>stName = ''alice'', stGoogleID = ''u1'', TotalTime = 7200000000000,
                          Date = utc 1722902400\<rparr>]"
    by (simp add: CalculateTotalTimeForDate_aggregateFrom aggregateFrom_Cons aggregateFrom_Nil
          c userKey_def Truncate_sample)
  have "recordedTotal (CalculateTotalTimeForDate [?s] (utc 1722902400)) ''aliceu1''
     = word_of_int (2 * Hour)"
    using t k o e by (simp add: recordedTotal_def)
  then show ?thesis using d o r by simp
qed

section \<open>C6: sessions that start on another day\<close>

text \<open>
  C6, as stated, fails for the same reason: the day compared is the calendar day in the
  location of the start time. A session that starts at 2024-08-05T18:00 UTC, read from
  \<open>2024-08-06T01:00:00+07:00\<close>, and ends at 04:00 UTC of 2024-08-06 starts on another
  UTC day than the target 2024-08-06, yet one hour is recorded for it.
\<close>

theorem other_utc_day_counted_counterexample:
  "\<not> onTargetDayUTC (utc 1722902400)
     \<lparr>Name = ''alice'', GoogleID = ''u1'',
      StartTime = zoned 1722880800 25200, EndTime = zoned 1722916800 25200\<rparr>
   \<and> CalculateTotalTimeForDate
     [\<lparr>Name = ''alice'', GoogleID = ''u1'',
       StartTime = zoned 1722880800 25200, EndTime = zoned 1722916800 25200\<rparr>]
     (utc 1722902400)
     = [''aliceu1'' \<mapsto> \<lparr>stName = ''alice'', stGoogleID = ''u1'', TotalTime = 3600000000000,
                          Date = utc 1722902400\<rparr>]"
proof -
  let ?s = "\<lparr>Name = ''alice'', GoogleID = ''u1'',
      StartTime = zoned 1722880800 25200, EndTime = zoned 1722916800 25200\<rparr>"
  have u: "\<not> onTargetDayUTC (utc 1722902400) ?s"
    by (simp add: onTargetDayUTC_def inUTC_simps civilDay_utc day_19941 day_19940)
  have "onTargetDay (utc 1722902400) ?s"
    by (simp add: onTargetDay_def civilDay_utc civilDay_zoned day_19941)
  then have c: "contribution (utc 1722902400) ?s = 3600000000000"
    by (simp add: contribution_def overlap_sample unixNano_simps)
  have "CalculateTotalTimeForDate [?s] (utc 1722902400)
     = [''aliceu1'' \<mapsto> \<lparr>stName = ''alice'', stGoogleID = ''u1'', TotalTime = 3600000000000,
                          Date = utc 1722902400\<rparr>]"
    by (simp add: CalculateTotalTimeForDate_aggregateFrom aggregateFrom_Cons aggregateFrom_Nil
          c userKey_def Truncate_sample)
  then show ?thesis using u by simp
qed

text \<open>
  C6, amended: a session whose start falls on another calendar day than the target date,
  year and day of the year being read in the location of each time value (the UTC
  calendar day when both are UTC times), contributes nothing: the output is the same as
  without it, even when the session overlaps the window. The session from
  2024-08-05T23:30 UTC to 2024-08-06T04:00 UTC, evaluated for 2024-08-06, contributes 0.
\<close>

theorem other_day_contributes_nothing:
  assumes "\<not> onTargetDay date s"
  shows "CalculateTotalTimeForDate (pre @ s # post) date
           = CalculateTotalTimeForDate (pre @ post) date
     \<and> contribution date s = 0"
  using assms
  by (simp add: CalculateTotalTimeForDate_aggregateFrom aggregateFrom_append
        aggregateFrom_Cons contribution_def)

theorem other_day_contributes_nothing_witness:
  "\<not> onTargetDay (utc 1722902400)
     \<lparr>Name = ''alice'', GoogleID = ''u1'', StartTime = utc 1722900600, EndTime = utc 1722916800\<rparr>
   \<and> overlap (utc 1722902400)
     \<lparr>Name = ''alice'', GoogleID = ''u1'', StartTime = utc 1722900600, EndTime = utc 1722916800\<rparr>
     = 3600000000000
   \<and> CalculateTotalTimeForDate
     [\<lparr>Name = ''alice'', GoogleID = ''u1'', StartTime = utc 1722900600, EndTime = utc 1722916800\<rparr>]
     (utc 1722902400) = Map.empty"
proof -
  let ?s = "\<lparr>Name = ''alice'', GoogleID = ''u1'',
      StartTime = utc 1722900600, EndTime = utc 1722916800\<rparr>"
  have d: "\<not> onTargetDay (utc 1722902400) ?s"
    by (simp add: onTargetDay_def civilDay_utc day_19941 day_19940)
  have o: "overlap (utc 1722902400) ?s = 3600000000000"
    by (simp add: overlap_sample unixNano_simps)
  have e: "CalculateTotalTimeForDate [] (utc 1722902400) = Map.empty"
    by (simp add: CalculateTotalTimeForDate_aggregateFrom aggregateFrom_Nil)
  have "CalculateTotalTimeForDate ([] @ ?s # []) (utc 1722902400)
          = CalculateTotalTimeForDate ([] @ []) (utc 1722902400)"
    using other_day_contributes_nothing [OF d, of "[]" "[]"] by blast
  then show ?thesis using d o e by simp
qed

end
